theory Spec2Isabelle
  imports Complex_Main "HOL-Library.Char_ord" "HOL-Library.List_Lexorder"
begin

section \<open>minijson: the value model\<close>

text \<open>
  \<^verbatim>\<open>minijson.hpp\<close>: a \<^verbatim>\<open>JsonValue\<close> holds a
  \<^verbatim>\<open>std::variant<Invalid, Null, Bool, Number, String, Array, Object>\<close>.
  \<^verbatim>\<open>Number\<close> is a C++ \<^verbatim>\<open>double\<close>; the type of doubles is the
  parameter \<open>'d\<close>, because the two conversions between doubles and text that the
  code calls (\<^verbatim>\<open>std::from_chars\<close>, \<^verbatim>\<open>std::to_string\<close>) belong to the
  C++ standard library and are parameters of the functions below.
  \<^verbatim>\<open>Array\<close> is a \<^verbatim>\<open>std::vector\<close>, a list.
  \<^verbatim>\<open>Object\<close> is a \<^verbatim>\<open>std::map<std::string, JsonValue, std::less<>>\<close>:
  it is modelled by the sequence of its members in iteration order, that is an
  association list with strictly increasing keys; keys are compared as byte strings.
\<close>

datatype 'd JsonValue =
    Invalid
  | Null
  | Bool bool
  | Number 'd
  | String string
  | Array "'d JsonValue list"
  | Object "(string \<times> 'd JsonValue) list"

text \<open>\<^verbatim>\<open>struct Error { size_t cursor; std::string message; }\<close>\<close>

record Error =
  cursor :: nat
  message :: string

text \<open>
  What C++ leaves undefined, or answers by aborting or throwing, is a value of the model:
  a read beyond the end of a string or vector, a failed \<^verbatim>\<open>assert\<close>, a
  \<^verbatim>\<open>std::get\<close> of the wrong alternative.
\<close>

datatype fault = OutOfRange | AssertionFailed | BadVariantAccess

text \<open>
  \<^verbatim>\<open>Result<T>\<close> holds a \<^verbatim>\<open>T\<close> or an \<^verbatim>\<open>Error\<close>. The third
  alternative is not a value of the C++ type: it records that the call ran into a
  \<^typ>\<open>fault\<close>.
\<close>

datatype 'a Result = Ok 'a | Err Error | Fault fault

abbreviation quote :: char where "quote \<equiv> CHR 0x22"
abbreviation backslash :: char where "backslash \<equiv> CHR 0x5C"
abbreviation newline :: char where "newline \<equiv> CHR 0x0A"
abbreviation tab :: char where "tab \<equiv> CHR 0x09"

section \<open>The parser\<close>

subsection \<open>Strings\<close>

text \<open>
  \<^verbatim>\<open>std::string::operator[]\<close>: the character at \<open>pos\<close> when
  \<open>pos < size()\<close>, the terminating null character when \<open>pos = size()\<close>, and
  undefined beyond.
\<close>

definition string_at :: "string \<Rightarrow> nat \<Rightarrow> char option" where
  "string_at str pos =
     (if pos < length str then Some (str ! pos)
      else if pos = length str then Some (CHR 0x00)
      else None)"

text \<open>The table \<^verbatim>\<open>escapes\<close> of \<^verbatim>\<open>parseString\<close>.\<close>

definition escapes :: "(char \<times> string) list" where
  "escapes =
     [(quote, [quote]),
      (backslash, [backslash]),
      (CHR ''/'', ''/''),
      (CHR ''b'', [CHR 0x08]),
      (CHR ''f'', [CHR 0x0C]),
      (CHR ''n'', [CHR 0x0A]),
      (CHR ''r'', [CHR 0x0D]),
      (CHR ''t'', [CHR 0x09])]"

text \<open>
  The loop of \<^verbatim>\<open>parseString\<close> (minijson.cpp, lines 18 to 55), with the cursor
  and the string built so far as arguments. Every call returns the result together
  with the cursor it leaves behind (the C++ cursor is a reference parameter).
  Line 24 reads \<^verbatim>\<open>str[cursor]\<close>, the string being built at the cursor of the
  source.
\<close>

function parseString_loop :: "string \<Rightarrow> nat \<Rightarrow> string \<Rightarrow> string Result \<times> nat" where
  "parseString_loop source cur str =
     (if cur < length source then
        if source ! cur = backslash then
          let cur1 = cur + 1 in
          if cur1 \<ge> length source then
            (Err \<lparr>cursor = cur1, message = ''Incomplete character escape''\<rparr>, cur1)
          else
            case string_at str cur1 of
              None \<Rightarrow> (Fault OutOfRange, cur1)
            | Some c \<Rightarrow>
                if c = CHR ''u'' then
                  (Err \<lparr>cursor = cur1,
                        message = ''Unicode escapes are not implemented yet''\<rparr>, cur1)
                else
                  (case map_of escapes c of
                     None \<Rightarrow>
                       (Err \<lparr>cursor = cur1, message = ''Invalid character escape''\<rparr>, cur1)
                   | Some e \<Rightarrow> parseString_loop source (cur1 + 1) (str @ e))
        else if source ! cur = quote then (Ok str, cur + 1)
        else parseString_loop source (cur + 1) (str @ [source ! cur])
      else (Err \<lparr>cursor = cur, message = ''Unterminated string''\<rparr>, cur))"
  by pat_completeness auto
termination
  by (relation "measure (\<lambda>(source, cur, str). length source - cur)") auto

declare parseString_loop.simps [simp del]

text \<open>\<^verbatim>\<open>parseString\<close>: the two assertions, the opening quote, the loop.\<close>

definition parseString :: "string \<Rightarrow> nat \<Rightarrow> string Result \<times> nat" where
  "parseString source cur =
     (if \<not> cur < length source then (Fault AssertionFailed, cur)
      else if source ! cur \<noteq> quote then (Fault AssertionFailed, cur)
      else parseString_loop source (cur + 1) [])"

subsection \<open>Whitespace, separators, numbers\<close>

definition isWhitespace :: "char \<Rightarrow> bool" where
  "isWhitespace ch \<longleftrightarrow> ch = CHR '' '' \<or> ch = tab \<or> ch = newline \<or> ch = tab"

function skipWhitespace :: "string \<Rightarrow> nat \<Rightarrow> nat" where
  "skipWhitespace source cur =
     (if cur < length source \<and> isWhitespace (source ! cur)
      then skipWhitespace source (cur + 1) else cur)"
  by pat_completeness auto
termination
  by (relation "measure (\<lambda>(source, cur). length source - cur)") auto

declare skipWhitespace.simps [simp del]

text \<open>
  \<^verbatim>\<open>std::from_chars(first, last, value)\<close> for doubles is a parameter: applied
  to the text, it gives the number of characters it consumed (\<^verbatim>\<open>ptr - first\<close>)
  and the value it stored, or no value when its error code is set.
\<close>

type_synonym 'd from_chars = "string \<Rightarrow> nat \<times> 'd option"

definition parseNumber :: "'d from_chars \<Rightarrow> string \<Rightarrow> 'd option" where
  "parseNumber from_chars str =
     (case from_chars str of
        (ptr, None) \<Rightarrow> None
      | (ptr, Some v) \<Rightarrow> if ptr \<noteq> length str then None else Some v)"

definition skipSeparator :: "string \<Rightarrow> nat \<Rightarrow> bool \<times> nat" where
  "skipSeparator source cur0 =
     (let cur = skipWhitespace source cur0 in
      if cur < length source \<and> source ! cur = CHR '','' then
        (True, skipWhitespace source (cur + 1))
      else (False, cur))"

subsection \<open>Literals and numbers\<close>

text \<open>The constant \<^verbatim>\<open>valueChars\<close> of \<^verbatim>\<open>parseValue\<close> (line 213), as written.\<close>

definition valueChars :: string where
  "valueChars = ''0123456789abcdefghijlmnopqrstuvwxyzABCDEFGHIJKLMNOPQRSTUVWXYZ.+-''"

text \<open>
  \<^verbatim>\<open>std::string_view::find_first_not_of(chars, pos)\<close>; \<open>None\<close> is
  \<^verbatim>\<open>npos\<close>. \<^verbatim>\<open>substr(pos, n)\<close> is called with \<open>pos\<close> within the view.
\<close>

function find_first_not_of :: "string \<Rightarrow> string \<Rightarrow> nat \<Rightarrow> nat option" where
  "find_first_not_of s chars pos =
     (if pos < length s then
        if s ! pos \<in> set chars then find_first_not_of s chars (pos + 1) else Some pos
      else None)"
  by pat_completeness auto
termination
  by (relation "measure (\<lambda>(s, chars, pos). length s - pos)") auto

declare find_first_not_of.simps [simp del]

definition substr :: "string \<Rightarrow> nat \<Rightarrow> nat \<Rightarrow> string" where
  "substr s pos n = take n (drop pos s)"

text \<open>Lines 213 to 218: the token \<^verbatim>\<open>value\<close> captured at the cursor.\<close>

definition valueToken :: "string \<Rightarrow> nat \<Rightarrow> string" where
  "valueToken source cur =
     (let valueEnd = (case find_first_not_of source valueChars cur of
                        None \<Rightarrow> length source
                      | Some e \<Rightarrow> e)
      in substr source cur (valueEnd - cur))"

text \<open>Lines 219 to 240: the last branch of \<^verbatim>\<open>parseValue\<close>.\<close>

definition parseLiteral :: "'d from_chars \<Rightarrow> string \<Rightarrow> nat \<Rightarrow> 'd JsonValue Result \<times> nat" where
  "parseLiteral from_chars source cur =
     (let val = valueToken source cur in
      if val = [] then (Err \<lparr>cursor = cur, message = ''Value must not be empty''\<rparr>, cur)
      else if val = ''null'' then (Ok Null, cur + length val)
      else if val = ''true'' then (Ok (Bool True), cur + length val)
      else if val = ''false'' then (Ok (Bool False), cur + length val)
      else (case parseNumber from_chars val of
              None \<Rightarrow> (Err \<lparr>cursor = cur, message = ''Invalid number''\<rparr>, cur)
            | Some number \<Rightarrow> (Ok (Number number), cur + length val)))"

subsection \<open>Arrays, objects, values\<close>

text \<open>
  \<^verbatim>\<open>std::map::emplace\<close> on the sorted member sequence: a new key is inserted at
  its place, a key already present keeps its value.
\<close>

fun emplace :: "(string \<times> 'v) list \<Rightarrow> string \<Rightarrow> 'v \<Rightarrow> (string \<times> 'v) list" where
  "emplace [] key v = [(key, v)]"
| "emplace ((k, w) # obj) key v =
     (if key < k then (key, v) # (k, w) # obj
      else if k < key then (k, w) # emplace obj key v
      else (k, w) # obj)"

text \<open>
  \<^verbatim>\<open>parseValue\<close>, and the loops of \<^verbatim>\<open>parseArray\<close> and
  \<^verbatim>\<open>parseObject\<close> with the container built so far as last argument
  (\<^verbatim>\<open>parseValue\<close> starts them with the empty container). A \<^verbatim>\<open>break\<close>
  and the end of the loop both reach the final \<^verbatim>\<open>return JsonValue(values)\<close>.
\<close>

function parseValue :: "'d from_chars \<Rightarrow> string \<Rightarrow> nat \<Rightarrow> 'd JsonValue Result \<times> nat"
  and parseArray ::
    "'d from_chars \<Rightarrow> string \<Rightarrow> nat \<Rightarrow> 'd JsonValue list \<Rightarrow> 'd JsonValue Result \<times> nat"
  and parseObject ::
    "'d from_chars \<Rightarrow> string \<Rightarrow> nat \<Rightarrow> (string \<times> 'd JsonValue) list
      \<Rightarrow> 'd JsonValue Result \<times> nat"
where
  "parseValue fc source cur0 =
     (let cur = skipWhitespace source cur0 in
      if cur \<ge> length source then (Err \<lparr>cursor = cur, message = ''Expected value''\<rparr>, cur)
      else if source ! cur = CHR ''{'' then parseObject fc source (cur + 1) []
      else if source ! cur = CHR ''['' then parseArray fc source (cur + 1) []
      else if source ! cur = quote then
        (case parseString source cur of
           (Ok s, cur1) \<Rightarrow> (Ok (String s), cur1)
         | (Err e, cur1) \<Rightarrow> (Err e, cur1)
         | (Fault f, cur1) \<Rightarrow> (Fault f, cur1))
      else parseLiteral fc source cur)"
| "parseArray fc source cur0 vals =
     (if cur0 < length source then
        let cur = skipWhitespace source cur0 in
        if cur \<ge> length source then
          (Err \<lparr>cursor = cur, message = ''Unterminated array''\<rparr>, cur)
        else if source ! cur = CHR '']'' then (Ok (Array vals), cur + 1)
        else
          (case parseValue fc source cur of
             (Err e, cur1) \<Rightarrow> (Err e, cur1)
           | (Fault f, cur1) \<Rightarrow> (Fault f, cur1)
           | (Ok v, cur1) \<Rightarrow>
               (case skipSeparator source cur1 of
                  (separatorFound, cur2) \<Rightarrow>
                    if cur2 < length source \<and> source ! cur2 = CHR '']'' then
                      (Ok (Array (vals @ [v])), cur2 + 1)
                    else if \<not> separatorFound then
                      (Err \<lparr>cursor = cur2, message = ''Expected separator''\<rparr>, cur2)
                    else parseArray fc source cur2 (vals @ [v])))
      else (Ok (Array vals), cur0))"
| "parseObject fc source cur0 obj =
     (if cur0 < length source then
        let cur = skipWhitespace source cur0 in
        if cur \<ge> length source then
          (Err \<lparr>cursor = cur, message = ''Unterminated object''\<rparr>, cur)
        else if source ! cur = CHR ''}'' then (Ok (Object obj), cur + 1)
        else if source ! cur \<noteq> quote then
          (Err \<lparr>cursor = cur, message = ''Expected key''\<rparr>, cur)
        else
          (case parseString source cur of
             (Err e, cur1) \<Rightarrow> (Err e, cur1)
           | (Fault f, cur1) \<Rightarrow> (Fault f, cur1)
           | (Ok key, cur1) \<Rightarrow>
               let cur2 = skipWhitespace source cur1 in
               if cur2 \<ge> length source \<or> source ! cur2 \<noteq> CHR '':'' then
                 (Err \<lparr>cursor = cur2, message = ''Expected colon''\<rparr>, cur2)
               else
                 let cur3 = skipWhitespace source (cur2 + 1) in
                 if cur3 \<ge> length source then
                   (Err \<lparr>cursor = cur3, message = ''Expected value''\<rparr>, cur3)
                 else
                   (case parseValue fc source cur3 of
                      (Err e, cur4) \<Rightarrow> (Err e, cur4)
                    | (Fault f, cur4) \<Rightarrow> (Fault f, cur4)
                    | (Ok v, cur4) \<Rightarrow>
                        (case skipSeparator source cur4 of
                           (separatorFound, cur5) \<Rightarrow>
                             if cur5 < length source \<and> source ! cur5 = CHR ''}'' then
                               (Ok (Object (emplace obj key v)), cur5 + 1)
                             else if \<not> separatorFound then
                               (Err \<lparr>cursor = cur5, message = ''Expected separator''\<rparr>, cur5)
                             else parseObject fc source cur5 (emplace obj key v))))
      else (Ok (Object obj), cur0))"
  by pat_completeness auto

text \<open>
  The recursion is through the cursor that a sub-parse returns, so its termination
  rests on the cursor never moving back, and moving forward when a value is returned.
\<close>

lemma skipWhitespace_ge: "cur \<le> skipWhitespace source cur"
proof (induction source cur rule: skipWhitespace.induct)
  case (1 source cur)
  show ?case
  proof (cases "cur < length source \<and> isWhitespace (source ! cur)")
    case True
    then have "skipWhitespace source cur = skipWhitespace source (cur + 1)"
      by (subst skipWhitespace.simps) simp
    with "1.IH"[OF True] show ?thesis by simp
  next
    case False
    then show ?thesis by (subst skipWhitespace.simps) auto
  qed
qed

lemma skipWhitespace_le: "cur \<le> length source \<Longrightarrow> skipWhitespace source cur \<le> length source"
proof (induction source cur rule: skipWhitespace.induct)
  case (1 source cur)
  show ?case
  proof (cases "cur < length source \<and> isWhitespace (source ! cur)")
    case True
    then have "skipWhitespace source cur = skipWhitespace source (cur + 1)"
      by (subst skipWhitespace.simps) simp
    with "1.IH"[OF True] True show ?thesis by simp
  next
    case False
    then show ?thesis using "1.prems" by (subst skipWhitespace.simps) auto
  qed
qed

lemma skipSeparator_ge: "cur \<le> snd (skipSeparator source cur)"
  using skipWhitespace_ge[of cur source]
        skipWhitespace_ge[of "skipWhitespace source cur + 1" source]
  by (auto simp: skipSeparator_def Let_def)

lemma skipSeparator_le:
  "cur \<le> length source \<Longrightarrow> snd (skipSeparator source cur) \<le> length source"
  using skipWhitespace_le[of cur source]
        skipWhitespace_le[of "skipWhitespace source cur + 1" source]
  by (auto simp: skipSeparator_def Let_def)

lemma parseString_loop_ge: "cur \<le> snd (parseString_loop source cur str)"
proof (induction source cur str rule: parseString_loop.induct)
  case (1 source cur str)
  show ?case
    apply (subst parseString_loop.simps)
    using "1.IH"
    apply (auto simp: Let_def split: option.splits)
     apply (metis Suc_leD)+
    done
qed

lemma parseString_loop_le:
  "cur \<le> length source \<Longrightarrow> snd (parseString_loop source cur str) \<le> length source"
proof (induction source cur str rule: parseString_loop.induct)
  case (1 source cur str)
  show ?case
    apply (subst parseString_loop.simps)
    using "1.IH" "1.prems"
    apply (auto simp: Let_def split: option.splits)
    done
qed

lemma parseString_ge: "cur \<le> snd (parseString source cur)"
  using parseString_loop_ge[of "cur + 1" source "[]"]
  by (auto simp: parseString_def)

lemma parseString_le:
  "cur \<le> length source \<Longrightarrow> snd (parseString source cur) \<le> length source"
  using parseString_loop_le[of "cur + 1" source "[]"]
  by (auto simp: parseString_def)

lemma parseString_gt:
  "fst (parseString source cur) = Ok s \<Longrightarrow> cur < snd (parseString source cur)"
  using parseString_loop_ge[of "cur + 1" source "[]"]
  by (auto simp: parseString_def split: if_splits)

lemma parseLiteral_ge: "cur \<le> snd (parseLiteral fc source cur)"
  by (auto simp: parseLiteral_def Let_def split: option.splits)

lemma length_valueToken: "length (valueToken source cur) \<le> length source - cur"
  by (simp add: valueToken_def substr_def Let_def)

lemma parseLiteral_le:
  "cur \<le> length source \<Longrightarrow> snd (parseLiteral fc source cur) \<le> length source"
  using length_valueToken[of source cur]
  by (auto simp: parseLiteral_def Let_def split: option.splits)

lemma parseLiteral_gt:
  "fst (parseLiteral fc source cur) = Ok v \<Longrightarrow> cur < snd (parseLiteral fc source cur)"
  by (auto simp: parseLiteral_def Let_def split: option.splits if_splits)

lemma parse_progress_dom:
  "parseValue_parseArray_parseObject_dom (Inl (fc, source, c)) \<Longrightarrow>
     c \<le> snd (parseValue fc source c) \<and>
     (\<forall>v. fst (parseValue fc source c) = Ok v \<longrightarrow> c < snd (parseValue fc source c)) \<and>
     (c \<le> length source \<longrightarrow> snd (parseValue fc source c) \<le> length source)"
  "parseValue_parseArray_parseObject_dom (Inr (Inl (fc, source, c, vals))) \<Longrightarrow>
     c \<le> snd (parseArray fc source c vals) \<and>
     (c \<le> length source \<longrightarrow> snd (parseArray fc source c vals) \<le> length source)"
  "parseValue_parseArray_parseObject_dom (Inr (Inr (fc, source, c, obj))) \<Longrightarrow>
     c \<le> snd (parseObject fc source c obj) \<and>
     (c \<le> length source \<longrightarrow> snd (parseObject fc source c obj) \<le> length source)"
proof (induction rule: parseValue_parseArray_parseObject.pinduct)
  case (1 fc source cur0)
  define cur where "cur = skipWhitespace source cur0"
  have ge: "cur0 \<le> cur" unfolding cur_def by (rule skipWhitespace_ge)
  have le: "cur0 \<le> length source \<Longrightarrow> cur \<le> length source"
    unfolding cur_def by (rule skipWhitespace_le)
  note IH = "1.IH"[OF cur_def]
  show ?case
    apply (subst (1 2 3 4) parseValue.psimps[OF "1.hyps"])
    unfolding cur_def[symmetric] Let_def
    using ge le IH parseString_ge[of cur source] parseString_gt[of source cur]
          parseLiteral_ge[of cur fc source] parseLiteral_gt[of fc source cur]
          parseString_le[of cur source] parseLiteral_le[of cur source fc]
    apply (auto split: prod.splits Result.splits)
    done
next
  case (2 fc source cur0 vals)
  define cur where "cur = skipWhitespace source cur0"
  have ge: "cur0 \<le> cur" unfolding cur_def by (rule skipWhitespace_ge)
  have le: "cur0 \<le> length source \<Longrightarrow> cur \<le> length source"
    unfolding cur_def by (rule skipWhitespace_le)
  show ?case
  proof (cases "cur0 < length source \<and> cur < length source \<and> source ! cur \<noteq> CHR '']''")
    case False
    then show ?thesis
      apply (subst (1 2) parseArray.psimps[OF "2.hyps"])
      unfolding cur_def[symmetric] Let_def
      using ge le by auto
  next
    case True
    then have c: "cur0 < length source" "\<not> length source \<le> cur" "source ! cur \<noteq> CHR '']''"
      by auto
    note IH1 = "2.IH"(1)[OF c(1) cur_def c(2) c(3)]
    obtain r cur1 where pv: "parseValue fc source cur = (r, cur1)" by force
    obtain sep cur2 where ss: "skipSeparator source cur1 = (sep, cur2)" by force
    have ge1: "cur \<le> cur1" using IH1 pv by simp
    have le1: "cur1 \<le> length source" using IH1 pv c by simp
    have ge2: "cur1 \<le> cur2" using skipSeparator_ge[of cur1 source] ss by simp
    have le2: "cur2 \<le> length source" using skipSeparator_le[OF le1] ss by simp
    show ?thesis
    proof (cases r)
      case (Ok v)
      note IH2 = "2.IH"(2)[OF c(1) cur_def c(2) c(3) pv[symmetric] Ok ss[symmetric]]
      show ?thesis
        apply (subst (1 2) parseArray.psimps[OF "2.hyps"])
        unfolding cur_def[symmetric] Let_def
        using c ge ge1 ge2 le2 IH2 by (auto simp: pv ss Ok)
    next
      case (Err e)
      show ?thesis
        apply (subst (1 2) parseArray.psimps[OF "2.hyps"])
        unfolding cur_def[symmetric] Let_def
        using c ge ge1 le1 by (auto simp: pv Err)
    next
      case (Fault f)
      show ?thesis
        apply (subst (1 2) parseArray.psimps[OF "2.hyps"])
        unfolding cur_def[symmetric] Let_def
        using c ge ge1 le1 by (auto simp: pv Fault)
    qed
  qed
next
  case (3 fc source cur0 obj)
  define cur where "cur = skipWhitespace source cur0"
  have ge: "cur0 \<le> cur" unfolding cur_def by (rule skipWhitespace_ge)
  have le: "cur0 \<le> length source \<Longrightarrow> cur \<le> length source"
    unfolding cur_def by (rule skipWhitespace_le)
  obtain rs cur1 where ps: "parseString source cur = (rs, cur1)" by force
  define cur2 where "cur2 = skipWhitespace source cur1"
  define cur3 where "cur3 = skipWhitespace source (cur2 + 1)"
  obtain r cur4 where pv: "parseValue fc source cur3 = (r, cur4)" by force
  obtain sep cur5 where ss: "skipSeparator source cur4 = (sep, cur5)" by force
  have ge1: "cur \<le> cur1" using parseString_ge[of cur source] ps by simp
  have le1: "cur \<le> length source \<Longrightarrow> cur1 \<le> length source"
    using parseString_le[of cur source] ps by simp
  have ge2: "cur1 \<le> cur2" unfolding cur2_def by (rule skipWhitespace_ge)
  have le2: "cur1 \<le> length source \<Longrightarrow> cur2 \<le> length source"
    unfolding cur2_def by (rule skipWhitespace_le)
  have ge3: "cur2 + 1 \<le> cur3" unfolding cur3_def by (rule skipWhitespace_ge)
  have le3: "cur2 + 1 \<le> length source \<Longrightarrow> cur3 \<le> length source"
    unfolding cur3_def by (rule skipWhitespace_le)
  have ge5: "cur4 \<le> cur5" using skipSeparator_ge[of cur4 source] ss by simp
  have le5: "cur4 \<le> length source \<Longrightarrow> cur5 \<le> length source"
    using skipSeparator_le[of cur4 source] ss by simp
  have cur3': "skipWhitespace source (Suc cur2) = cur3" by (simp add: cur3_def)
  show ?case
  proof (cases "cur0 < length source \<and> cur < length source \<and> source ! cur \<noteq> CHR ''}''
        \<and> source ! cur = quote \<and> (\<exists>key. rs = Ok key) \<and> cur2 < length source
        \<and> source ! cur2 = CHR '':'' \<and> cur3 < length source")
    case False
    then show ?thesis
      apply (subst (1 2) parseObject.psimps[OF "3.hyps"])
      unfolding cur_def[symmetric] Let_def
      using ge ge1 ge2 ge3 le le1 le2 le3
      by (auto simp: ps cur2_def[symmetric] cur3' split: Result.splits)
  next
    case True
    then obtain key where c: "cur0 < length source" "\<not> length source \<le> cur"
      "source ! cur \<noteq> CHR ''}''" "\<not> source ! cur \<noteq> quote" "rs = Ok key"
      "\<not> (length source \<le> cur2 \<or> source ! cur2 \<noteq> CHR '':'')" "\<not> length source \<le> cur3"
      by auto
    note IH1 = "3.IH"(1)[OF c(1) cur_def c(2) c(3) c(4) ps[symmetric] c(5) cur2_def c(6)
        cur3_def c(7)]
    have ge4: "cur3 \<le> cur4" using IH1 pv by simp
    have le4: "cur4 \<le> length source" using IH1 pv c by simp
    note le5' = le5[OF le4]
    show ?thesis
    proof (cases r)
      case (Ok v)
      note IH2 = "3.IH"(2)[OF c(1) cur_def c(2) c(3) c(4) ps[symmetric] c(5) cur2_def c(6)
          cur3_def c(7) pv[symmetric] Ok ss[symmetric]]
      show ?thesis
        apply (subst (1 2) parseObject.psimps[OF "3.hyps"])
        unfolding cur_def[symmetric] Let_def
        using c ge ge1 ge2 ge3 ge4 ge5 le5' IH2
        by (auto simp: ps cur2_def[symmetric] cur3' pv ss Ok)
    next
      case (Err e)
      show ?thesis
        apply (subst (1 2) parseObject.psimps[OF "3.hyps"])
        unfolding cur_def[symmetric] Let_def
        using c ge ge1 ge2 ge3 ge4 le4
        by (auto simp: ps cur2_def[symmetric] cur3' pv Err)
    next
      case (Fault f)
      show ?thesis
        apply (subst (1 2) parseObject.psimps[OF "3.hyps"])
        unfolding cur_def[symmetric] Let_def
        using c ge ge1 ge2 ge3 ge4 le4
        by (auto simp: ps cur2_def[symmetric] cur3' pv Fault)
    qed
  qed
qed

text \<open>
  Every call of the three functions is in the domain of the recursion: each recursive
  call decreases twice the distance of the cursor to the end of the buffer, plus one for
  the two loops (a loop calls \<^verbatim>\<open>parseValue\<close> at a cursor that may be its own).
\<close>

lemma parse_dom_total: "parseValue_parseArray_parseObject_dom x"
proof -
  have "All parseValue_parseArray_parseObject_dom"
  proof (rule "parseValue_parseArray_parseObject.termination"[of "measure (\<lambda>x. case x of
      Inl (fc, source, cur) \<Rightarrow> 2 * (length source - cur)
    | Inr (Inl (fc, source, cur, vals)) \<Rightarrow> 2 * (length source - cur) + 1
    | Inr (Inr (fc, source, cur, obj)) \<Rightarrow> 2 * (length source - cur) + 1)"], goal_cases)
    case 1
    show ?case by simp
  next
    case (2 fc source cur0 x)
    then show ?case using skipWhitespace_ge[of cur0 source] by auto
  next
    case (3 fc source cur0 x)
    then show ?case using skipWhitespace_ge[of cur0 source] by auto
  next
    case (4 fc source cur0 vals x)
    then show ?case using skipWhitespace_ge[of cur0 source] by auto
  next
    case (5 fc source cur0 vals x xa y x1 xb ya)
    have "parseValue fc source x = (Ok x1, y)" using 5 by simp
    with parse_progress_dom(1)[OF "5"(10)] have "x < y" by simp
    moreover have "y \<le> ya" using skipSeparator_ge[of y source] "5"(7)[symmetric] by simp
    moreover have "cur0 \<le> x" using 5 skipWhitespace_ge[of cur0 source] by simp
    ultimately show ?case using 5 by simp
  next
    case (6 fc source cur0 obj x xa y x1 xb xc)
    have "cur0 \<le> x" using 6 skipWhitespace_ge[of cur0 source] by simp
    moreover have "x \<le> y" using parseString_ge[of x source] "6"(6)[symmetric] by simp
    moreover have "y \<le> xb" using 6 skipWhitespace_ge[of y source] by simp
    moreover have "xb + 1 \<le> xc" using 6 skipWhitespace_ge[of "xb + 1" source] by simp
    ultimately show ?case using 6 by simp
  next
    case (7 fc source cur0 obj x xa y x1 xb xc xd ya x1a xe yb)
    have "parseValue fc source xc = (Ok x1a, ya)" using 7 by simp
    with parse_progress_dom(1)[OF "7"(17)] have "xc < ya" by simp
    moreover have "ya \<le> yb" using skipSeparator_ge[of ya source] "7"(14)[symmetric] by simp
    moreover have "cur0 \<le> x" using 7 skipWhitespace_ge[of cur0 source] by simp
    moreover have "x \<le> y" using parseString_ge[of x source] "7"(6)[symmetric] by simp
    moreover have "y \<le> xb" using 7 skipWhitespace_ge[of y source] by simp
    moreover have "xb + 1 \<le> xc" using 7 skipWhitespace_ge[of "xb + 1" source] by simp
    ultimately show ?case using 7 by simp
  qed
  then show ?thesis by (rule spec)
qed

termination parseValue
  by (simp add: parse_dom_total)

declare parseValue.simps [simp del] parseArray.simps [simp del] parseObject.simps [simp del]

text \<open>\<^verbatim>\<open>parse\<close>: the cursor starts at 0 and is dropped at the end.\<close>

definition parse :: "'d from_chars \<Rightarrow> string \<Rightarrow> 'd JsonValue Result" where
  "parse fc source = fst (parseValue fc source 0)"

subsection \<open>The parser beyond the unchecked read\<close>

text \<open>
  \<^verbatim>\<open>std::string::operator[]\<close> does not check its index, and what the read of line 24
  does beyond the end of the string is not defined by the language: a build with checked
  access stops there, an ordinary build goes on through lines 26 to 46 with the byte it
  finds. The parameter \<open>beyond\<close> gives, for the string and the position read, \<open>None\<close>
  when the run stops and \<open>Some c\<close> when the read delivers the byte \<open>c\<close>. With it,
  \<^verbatim>\<open>parseString\<close> and the three functions that depend on it are as above, line by
  line.
\<close>

type_synonym unchecked_read = "string \<Rightarrow> nat \<Rightarrow> char option"

definition string_at_reading :: "unchecked_read \<Rightarrow> string \<Rightarrow> nat \<Rightarrow> char option" where
  "string_at_reading beyond str pos =
     (if pos < length str then Some (str ! pos)
      else if pos = length str then Some (CHR 0x00)
      else beyond str pos)"

function parseString_loop_reading ::
  "unchecked_read \<Rightarrow> string \<Rightarrow> nat \<Rightarrow> string \<Rightarrow> string Result \<times> nat" where
  "parseString_loop_reading beyond source cur str =
     (if cur < length source then
        if source ! cur = backslash then
          let cur1 = cur + 1 in
          if cur1 \<ge> length source then
            (Err \<lparr>cursor = cur1, message = ''Incomplete character escape''\<rparr>, cur1)
          else
            case string_at_reading beyond str cur1 of
              None \<Rightarrow> (Fault OutOfRange, cur1)
            | Some c \<Rightarrow>
                if c = CHR ''u'' then
                  (Err \<lparr>cursor = cur1,
                        message = ''Unicode escapes are not implemented yet''\<rparr>, cur1)
                else
                  (case map_of escapes c of
                     None \<Rightarrow>
                       (Err \<lparr>cursor = cur1, message = ''Invalid character escape''\<rparr>, cur1)
                   | Some e \<Rightarrow> parseString_loop_reading beyond source (cur1 + 1) (str @ e))
        else if source ! cur = quote then (Ok str, cur + 1)
        else parseString_loop_reading beyond source (cur + 1) (str @ [source ! cur])
      else (Err \<lparr>cursor = cur, message = ''Unterminated string''\<rparr>, cur))"
  by pat_completeness auto

termination
  by (relation "measure (\<lambda>(beyond, source, cur, str). length source - cur)") auto

declare parseString_loop_reading.simps [simp del]

definition parseString_reading ::
  "unchecked_read \<Rightarrow> string \<Rightarrow> nat \<Rightarrow> string Result \<times> nat" where
  "parseString_reading beyond source cur =
     (if \<not> cur < length source then (Fault AssertionFailed, cur)
      else if source ! cur \<noteq> quote then (Fault AssertionFailed, cur)
      else parseString_loop_reading beyond source (cur + 1) [])"

function parseValue_reading ::
    "unchecked_read \<Rightarrow> 'd from_chars \<Rightarrow> string \<Rightarrow> nat \<Rightarrow> 'd JsonValue Result \<times> nat"
  and parseArray_reading ::
    "unchecked_read \<Rightarrow> 'd from_chars \<Rightarrow> string \<Rightarrow> nat \<Rightarrow> 'd JsonValue list
      \<Rightarrow> 'd JsonValue Result \<times> nat"
  and parseObject_reading ::
    "unchecked_read \<Rightarrow> 'd from_chars \<Rightarrow> string \<Rightarrow> nat \<Rightarrow> (string \<times> 'd JsonValue) list
      \<Rightarrow> 'd JsonValue Result \<times> nat"
where
  "parseValue_reading beyond fc source cur0 =
     (let cur = skipWhitespace source cur0 in
      if cur \<ge> length source then (Err \<lparr>cursor = cur, message = ''Expected value''\<rparr>, cur)
      else if source ! cur = CHR ''{'' then parseObject_reading beyond fc source (cur + 1) []
      else if source ! cur = CHR ''['' then parseArray_reading beyond fc source (cur + 1) []
      else if source ! cur = quote then
        (case parseString_reading beyond source cur of
           (Ok s, cur1) \<Rightarrow> (Ok (String s), cur1)
         | (Err e, cur1) \<Rightarrow> (Err e, cur1)
         | (Fault f, cur1) \<Rightarrow> (Fault f, cur1))
      else parseLiteral fc source cur)"
| "parseArray_reading beyond fc source cur0 vals =
     (if cur0 < length source then
        let cur = skipWhitespace source cur0 in
        if cur \<ge> length source then
          (Err \<lparr>cursor = cur, message = ''Unterminated array''\<rparr>, cur)
        else if source ! cur = CHR '']'' then (Ok (Array vals), cur + 1)
        else
          (case parseValue_reading beyond fc source cur of
             (Err e, cur1) \<Rightarrow> (Err e, cur1)
           | (Fault f, cur1) \<Rightarrow> (Fault f, cur1)
           | (Ok v, cur1) \<Rightarrow>
               (case skipSeparator source cur1 of
                  (separatorFound, cur2) \<Rightarrow>
                    if cur2 < length source \<and> source ! cur2 = CHR '']'' then
                      (Ok (Array (vals @ [v])), cur2 + 1)
                    else if \<not> separatorFound then
                      (Err \<lparr>cursor = cur2, message = ''Expected separator''\<rparr>, cur2)
                    else parseArray_reading beyond fc source cur2 (vals @ [v])))
      else (Ok (Array vals), cur0))"
| "parseObject_reading beyond fc source cur0 obj =
     (if cur0 < length source then
        let cur = skipWhitespace source cur0 in
        if cur \<ge> length source then
          (Err \<lparr>cursor = cur, message = ''Unterminated object''\<rparr>, cur)
        else if source ! cur = CHR ''}'' then (Ok (Object obj), cur + 1)
        else if source ! cur \<noteq> quote then
          (Err \<lparr>cursor = cur, message = ''Expected key''\<rparr>, cur)
        else
          (case parseString_reading beyond source cur of
             (Err e, cur1) \<Rightarrow> (Err e, cur1)
           | (Fault f, cur1) \<Rightarrow> (Fault f, cur1)
           | (Ok key, cur1) \<Rightarrow>
               let cur2 = skipWhitespace source cur1 in
               if cur2 \<ge> length source \<or> source ! cur2 \<noteq> CHR '':'' then
                 (Err \<lparr>cursor = cur2, message = ''Expected colon''\<rparr>, cur2)
               else
                 let cur3 = skipWhitespace source (cur2 + 1) in
                 if cur3 \<ge> length source then
                   (Err \<lparr>cursor = cur3, message = ''Expected value''\<rparr>, cur3)
                 else
                   (case parseValue_reading beyond fc source cur3 of
                      (Err e, cur4) \<Rightarrow> (Err e, cur4)
                    | (Fault f, cur4) \<Rightarrow> (Fault f, cur4)
                    | (Ok v, cur4) \<Rightarrow>
                        (case skipSeparator source cur4 of
                           (separatorFound, cur5) \<Rightarrow>
                             if cur5 < length source \<and> source ! cur5 = CHR ''}'' then
                               (Ok (Object (emplace obj key v)), cur5 + 1)
                             else if \<not> separatorFound then
                               (Err \<lparr>cursor = cur5, message = ''Expected separator''\<rparr>, cur5)
                             else parseObject_reading beyond fc source cur5 (emplace obj key v))))
      else (Ok (Object obj), cur0))"
  by pat_completeness auto

text \<open>
  The recursion terminates for the same reason: the cursor never moves back, and moves
  forward when a value is returned, whatever the read delivers.
\<close>

lemma parseString_loop_reading_ge: "cur \<le> snd (parseString_loop_reading beyond source cur str)"
proof (induction beyond source cur str rule: parseString_loop_reading.induct)
  case (1 beyond source cur str)
  show ?case
    apply (subst parseString_loop_reading.simps)
    using "1.IH"
    apply (auto simp: Let_def split: option.splits)
     apply (metis Suc_leD)+
    done
qed

lemma parseString_loop_reading_le:
  "cur \<le> length source \<Longrightarrow> snd (parseString_loop_reading beyond source cur str) \<le> length source"
proof (induction beyond source cur str rule: parseString_loop_reading.induct)
  case (1 beyond source cur str)
  show ?case
    apply (subst parseString_loop_reading.simps)
    using "1.IH" "1.prems"
    apply (auto simp: Let_def split: option.splits)
    done
qed

lemma parseString_reading_ge: "cur \<le> snd (parseString_reading beyond source cur)"
  using parseString_loop_reading_ge[of "cur + 1" beyond source "[]"]
  by (auto simp: parseString_reading_def)

lemma parseString_reading_le:
  "cur \<le> length source \<Longrightarrow> snd (parseString_reading beyond source cur) \<le> length source"
  using parseString_loop_reading_le[of "cur + 1" source beyond "[]"]
  by (auto simp: parseString_reading_def)

lemma parseString_reading_gt:
  "fst (parseString_reading beyond source cur) = Ok s \<Longrightarrow> cur < snd (parseString_reading beyond source cur)"
  using parseString_loop_reading_ge[of "cur + 1" beyond source "[]"]
  by (auto simp: parseString_reading_def split: if_splits)

lemma parse_reading_progress_dom:
  "parseValue_reading_parseArray_reading_parseObject_reading_dom (Inl (beyond, fc, source, c)) \<Longrightarrow>
     c \<le> snd (parseValue_reading beyond fc source c) \<and>
     (\<forall>v. fst (parseValue_reading beyond fc source c) = Ok v \<longrightarrow> c < snd (parseValue_reading beyond fc source c)) \<and>
     (c \<le> length source \<longrightarrow> snd (parseValue_reading beyond fc source c) \<le> length source)"
  "parseValue_reading_parseArray_reading_parseObject_reading_dom (Inr (Inl (beyond, fc, source, c, vals))) \<Longrightarrow>
     c \<le> snd (parseArray_reading beyond fc source c vals) \<and>
     (c \<le> length source \<longrightarrow> snd (parseArray_reading beyond fc source c vals) \<le> length source)"
  "parseValue_reading_parseArray_reading_parseObject_reading_dom (Inr (Inr (beyond, fc, source, c, obj))) \<Longrightarrow>
     c \<le> snd (parseObject_reading beyond fc source c obj) \<and>
     (c \<le> length source \<longrightarrow> snd (parseObject_reading beyond fc source c obj) \<le> length source)"
proof (induction rule: parseValue_reading_parseArray_reading_parseObject_reading.pinduct)
  case (1 beyond fc source cur0)
  define cur where "cur = skipWhitespace source cur0"
  have ge: "cur0 \<le> cur" unfolding cur_def by (rule skipWhitespace_ge)
  have le: "cur0 \<le> length source \<Longrightarrow> cur \<le> length source"
    unfolding cur_def by (rule skipWhitespace_le)
  note IH = "1.IH"[OF cur_def]
  show ?case
    apply (subst (1 2 3 4) parseValue_reading.psimps[OF "1.hyps"])
    unfolding cur_def[symmetric] Let_def
    using ge le IH parseString_reading_ge[of cur beyond source] parseString_reading_gt[of beyond source cur]
          parseLiteral_ge[of cur fc source] parseLiteral_gt[of fc source cur]
          parseString_reading_le[of cur source beyond] parseLiteral_le[of cur source fc]
    apply (auto split: prod.splits Result.splits)
    done
next
  case (2 beyond fc source cur0 vals)
  define cur where "cur = skipWhitespace source cur0"
  have ge: "cur0 \<le> cur" unfolding cur_def by (rule skipWhitespace_ge)
  have le: "cur0 \<le> length source \<Longrightarrow> cur \<le> length source"
    unfolding cur_def by (rule skipWhitespace_le)
  show ?case
  proof (cases "cur0 < length source \<and> cur < length source \<and> source ! cur \<noteq> CHR '']''")
    case False
    then show ?thesis
      apply (subst (1 2) parseArray_reading.psimps[OF "2.hyps"])
      unfolding cur_def[symmetric] Let_def
      using ge le by auto
  next
    case True
    then have c: "cur0 < length source" "\<not> length source \<le> cur" "source ! cur \<noteq> CHR '']''"
      by auto
    note IH1 = "2.IH"(1)[OF c(1) cur_def c(2) c(3)]
    obtain r cur1 where pv: "parseValue_reading beyond fc source cur = (r, cur1)" by force
    obtain sep cur2 where ss: "skipSeparator source cur1 = (sep, cur2)" by force
    have ge1: "cur \<le> cur1" using IH1 pv by simp
    have le1: "cur1 \<le> length source" using IH1 pv c by simp
    have ge2: "cur1 \<le> cur2" using skipSeparator_ge[of cur1 source] ss by simp
    have le2: "cur2 \<le> length source" using skipSeparator_le[OF le1] ss by simp
    show ?thesis
    proof (cases r)
      case (Ok v)
      note IH2 = "2.IH"(2)[OF c(1) cur_def c(2) c(3) pv[symmetric] Ok ss[symmetric]]
      show ?thesis
        apply (subst (1 2) parseArray_reading.psimps[OF "2.hyps"])
        unfolding cur_def[symmetric] Let_def
        using c ge ge1 ge2 le2 IH2 by (auto simp: pv ss Ok)
    next
      case (Err e)
      show ?thesis
        apply (subst (1 2) parseArray_reading.psimps[OF "2.hyps"])
        unfolding cur_def[symmetric] Let_def
        using c ge ge1 le1 by (auto simp: pv Err)
    next
      case (Fault f)
      show ?thesis
        apply (subst (1 2) parseArray_reading.psimps[OF "2.hyps"])
        unfolding cur_def[symmetric] Let_def
        using c ge ge1 le1 by (auto simp: pv Fault)
    qed
  qed
next
  case (3 beyond fc source cur0 obj)
  define cur where "cur = skipWhitespace source cur0"
  have ge: "cur0 \<le> cur" unfolding cur_def by (rule skipWhitespace_ge)
  have le: "cur0 \<le> length source \<Longrightarrow> cur \<le> length source"
    unfolding cur_def by (rule skipWhitespace_le)
  obtain rs cur1 where ps: "parseString_reading beyond source cur = (rs, cur1)" by force
  define cur2 where "cur2 = skipWhitespace source cur1"
  define cur3 where "cur3 = skipWhitespace source (cur2 + 1)"
  obtain r cur4 where pv: "parseValue_reading beyond fc source cur3 = (r, cur4)" by force
  obtain sep cur5 where ss: "skipSeparator source cur4 = (sep, cur5)" by force
  have ge1: "cur \<le> cur1" using parseString_reading_ge[of cur beyond source] ps by simp
  have le1: "cur \<le> length source \<Longrightarrow> cur1 \<le> length source"
    using parseString_reading_le[of cur source beyond] ps by simp
  have ge2: "cur1 \<le> cur2" unfolding cur2_def by (rule skipWhitespace_ge)
  have le2: "cur1 \<le> length source \<Longrightarrow> cur2 \<le> length source"
    unfolding cur2_def by (rule skipWhitespace_le)
  have ge3: "cur2 + 1 \<le> cur3" unfolding cur3_def by (rule skipWhitespace_ge)
  have le3: "cur2 + 1 \<le> length source \<Longrightarrow> cur3 \<le> length source"
    unfolding cur3_def by (rule skipWhitespace_le)
  have ge5: "cur4 \<le> cur5" using skipSeparator_ge[of cur4 source] ss by simp
  have le5: "cur4 \<le> length source \<Longrightarrow> cur5 \<le> length source"
    using skipSeparator_le[of cur4 source] ss by simp
  have cur3': "skipWhitespace source (Suc cur2) = cur3" by (simp add: cur3_def)
  show ?case
  proof (cases "cur0 < length source \<and> cur < length source \<and> source ! cur \<noteq> CHR ''}''
        \<and> source ! cur = quote \<and> (\<exists>key. rs = Ok key) \<and> cur2 < length source
        \<and> source ! cur2 = CHR '':'' \<and> cur3 < length source")
    case False
    then show ?thesis
      apply (subst (1 2) parseObject_reading.psimps[OF "3.hyps"])
      unfolding cur_def[symmetric] Let_def
      using ge ge1 ge2 ge3 le le1 le2 le3
      by (auto simp: ps cur2_def[symmetric] cur3' split: Result.splits)
  next
    case True
    then obtain key where c: "cur0 < length source" "\<not> length source \<le> cur"
      "source ! cur \<noteq> CHR ''}''" "\<not> source ! cur \<noteq> quote" "rs = Ok key"
      "\<not> (length source \<le> cur2 \<or> source ! cur2 \<noteq> CHR '':'')" "\<not> length source \<le> cur3"
      by auto
    note IH1 = "3.IH"(1)[OF c(1) cur_def c(2) c(3) c(4) ps[symmetric] c(5) cur2_def c(6)
        cur3_def c(7)]
    have ge4: "cur3 \<le> cur4" using IH1 pv by simp
    have le4: "cur4 \<le> length source" using IH1 pv c by simp
    note le5' = le5[OF le4]
    show ?thesis
    proof (cases r)
      case (Ok v)
      note IH2 = "3.IH"(2)[OF c(1) cur_def c(2) c(3) c(4) ps[symmetric] c(5) cur2_def c(6)
          cur3_def c(7) pv[symmetric] Ok ss[symmetric]]
      show ?thesis
        apply (subst (1 2) parseObject_reading.psimps[OF "3.hyps"])
        unfolding cur_def[symmetric] Let_def
        using c ge ge1 ge2 ge3 ge4 ge5 le5' IH2
        by (auto simp: ps cur2_def[symmetric] cur3' pv ss Ok)
    next
      case (Err e)
      show ?thesis
        apply (subst (1 2) parseObject_reading.psimps[OF "3.hyps"])
        unfolding cur_def[symmetric] Let_def
        using c ge ge1 ge2 ge3 ge4 le4
        by (auto simp: ps cur2_def[symmetric] cur3' pv Err)
    next
      case (Fault f)
      show ?thesis
        apply (subst (1 2) parseObject_reading.psimps[OF "3.hyps"])
        unfolding cur_def[symmetric] Let_def
        using c ge ge1 ge2 ge3 ge4 le4
        by (auto simp: ps cur2_def[symmetric] cur3' pv Fault)
    qed
  qed
qed

lemma parse_reading_dom_total: "parseValue_reading_parseArray_reading_parseObject_reading_dom x"
proof -
  have "All parseValue_reading_parseArray_reading_parseObject_reading_dom"
  proof (rule "parseValue_reading_parseArray_reading_parseObject_reading.termination"[of "measure (\<lambda>x. case x of
      Inl (beyond, fc, source, cur) \<Rightarrow> 2 * (length source - cur)
    | Inr (Inl (beyond, fc, source, cur, vals)) \<Rightarrow> 2 * (length source - cur) + 1
    | Inr (Inr (beyond, fc, source, cur, obj)) \<Rightarrow> 2 * (length source - cur) + 1)"], goal_cases)
    case 1
    show ?case by simp
  next
    case (2 beyond fc source cur0 x)
    then show ?case using skipWhitespace_ge[of cur0 source] by auto
  next
    case (3 beyond fc source cur0 x)
    then show ?case using skipWhitespace_ge[of cur0 source] by auto
  next
    case (4 beyond fc source cur0 vals x)
    then show ?case using skipWhitespace_ge[of cur0 source] by auto
  next
    case (5 beyond fc source cur0 vals x xa y x1 xb ya)
    have "parseValue_reading beyond fc source x = (Ok x1, y)" using 5 by simp
    with parse_reading_progress_dom(1)[OF "5"(10)] have "x < y" by simp
    moreover have "y \<le> ya" using skipSeparator_ge[of y source] "5"(7)[symmetric] by simp
    moreover have "cur0 \<le> x" using 5 skipWhitespace_ge[of cur0 source] by simp
    ultimately show ?case using 5 by simp
  next
    case (6 beyond fc source cur0 obj x xa y x1 xb xc)
    have "cur0 \<le> x" using 6 skipWhitespace_ge[of cur0 source] by simp
    moreover have "x \<le> y" using parseString_reading_ge[of x beyond source] "6"(6)[symmetric] by simp
    moreover have "y \<le> xb" using 6 skipWhitespace_ge[of y source] by simp
    moreover have "xb + 1 \<le> xc" using 6 skipWhitespace_ge[of "xb + 1" source] by simp
    ultimately show ?case using 6 by simp
  next
    case (7 beyond fc source cur0 obj x xa y x1 xb xc xd ya x1a xe yb)
    have "parseValue_reading beyond fc source xc = (Ok x1a, ya)" using 7 by simp
    with parse_reading_progress_dom(1)[OF "7"(17)] have "xc < ya" by simp
    moreover have "ya \<le> yb" using skipSeparator_ge[of ya source] "7"(14)[symmetric] by simp
    moreover have "cur0 \<le> x" using 7 skipWhitespace_ge[of cur0 source] by simp
    moreover have "x \<le> y" using parseString_reading_ge[of x beyond source] "7"(6)[symmetric] by simp
    moreover have "y \<le> xb" using 7 skipWhitespace_ge[of y source] by simp
    moreover have "xb + 1 \<le> xc" using 7 skipWhitespace_ge[of "xb + 1" source] by simp
    ultimately show ?case using 7 by simp
  qed
  then show ?thesis by (rule spec)
qed

termination parseValue_reading
  by (simp add: parse_reading_dom_total)

declare parseValue_reading.simps [simp del] parseArray_reading.simps [simp del] parseObject_reading.simps [simp del]

definition parse_reading ::
  "unchecked_read \<Rightarrow> 'd from_chars \<Rightarrow> string \<Rightarrow> 'd JsonValue Result" where
  "parse_reading beyond fc source = fst (parseValue_reading beyond fc source 0)"

section \<open>Value accessors\<close>

text \<open>
  \<^verbatim>\<open>is<T>()\<close> is \<^verbatim>\<open>std::holds_alternative<T>\<close>; \<^verbatim>\<open>as<T>()\<close> is
  \<^verbatim>\<open>std::get<T>\<close>, which throws \<^verbatim>\<open>std::bad_variant_access\<close> on another
  alternative. \<^verbatim>\<open>size()\<close> and the two \<^verbatim>\<open>operator[]\<close> are written as in
  minijson.cpp, lines 246 to 280, so each may in principle end in a \<^typ>\<open>fault\<close>.
  \<^verbatim>\<open>getNonExistent\<close> returns a default-constructed static value, which holds
  \<^verbatim>\<open>Invalid\<close>. \<^verbatim>\<open>std::map::find\<close> on the member sequence is \<^const>\<open>map_of\<close>.
\<close>

definition isValid :: "'d JsonValue \<Rightarrow> bool" where
  "isValid v \<longleftrightarrow> v \<noteq> Invalid"

definition isNull :: "'d JsonValue \<Rightarrow> bool" where
  "isNull v \<longleftrightarrow> v = Null"

definition isArray :: "'d JsonValue \<Rightarrow> bool" where
  "isArray v = (case v of Array a \<Rightarrow> True | _ \<Rightarrow> False)"

definition isObject :: "'d JsonValue \<Rightarrow> bool" where
  "isObject v = (case v of Object obj \<Rightarrow> True | _ \<Rightarrow> False)"

definition asArray :: "'d JsonValue \<Rightarrow> fault + 'd JsonValue list" where
  "asArray v = (case v of Array a \<Rightarrow> Inr a | _ \<Rightarrow> Inl BadVariantAccess)"

definition asObject :: "'d JsonValue \<Rightarrow> fault + (string \<times> 'd JsonValue) list" where
  "asObject v = (case v of Object obj \<Rightarrow> Inr obj | _ \<Rightarrow> Inl BadVariantAccess)"

definition size_value :: "'d JsonValue \<Rightarrow> fault + nat" where
  "size_value v =
     (if \<not> isValid v \<or> isNull v then Inr 0
      else if isArray v then (case asArray v of Inl f \<Rightarrow> Inl f | Inr a \<Rightarrow> Inr (length a))
      else if isObject v then (case asObject v of Inl f \<Rightarrow> Inl f | Inr obj \<Rightarrow> Inr (length obj))
      else Inr 1)"

definition getNonExistent :: "'d JsonValue" where
  "getNonExistent = Invalid"

definition vector_at :: "'a list \<Rightarrow> nat \<Rightarrow> fault + 'a" where
  "vector_at a i = (if i < length a then Inr (a ! i) else Inl OutOfRange)"

definition lookup_key :: "'d JsonValue \<Rightarrow> string \<Rightarrow> fault + 'd JsonValue" where
  "lookup_key v key =
     (if isObject v then
        (case asObject v of
           Inl f \<Rightarrow> Inl f
         | Inr obj \<Rightarrow>
             (case map_of obj key of
                None \<Rightarrow> Inr getNonExistent
              | Some member \<Rightarrow> Inr member))
      else Inr getNonExistent)"

definition lookup_index :: "'d JsonValue \<Rightarrow> nat \<Rightarrow> fault + 'd JsonValue" where
  "lookup_index v index =
     (if isArray v then
        (case size_value v of
           Inl f \<Rightarrow> Inl f
         | Inr n \<Rightarrow>
             if index < n then
               (case asArray v of Inl f \<Rightarrow> Inl f | Inr a \<Rightarrow> vector_at a index)
             else Inr getNonExistent)
      else Inr getNonExistent)"

subsection \<open>Serialization\<close>

text \<open>
  \<^verbatim>\<open>JsonValue::dump(indent, indentLevel)\<close> (lines 282 to 341), with
  \<^verbatim>\<open>std::to_string\<close> for doubles as a parameter. The two loops are the functions
  \<open>dump_elements\<close> and \<open>dump_members\<close> over the elements and members still to
  print; the test \<^verbatim>\<open>i < arr.size() - 1\<close> is true when more of them follow. The
  assertion \<^verbatim>\<open>isValid()\<close> fails on \<^verbatim>\<open>Invalid\<close>. The default arguments are
  the empty string and 0.
\<close>

definition indentStr :: "string \<Rightarrow> nat \<Rightarrow> string" where
  "indentStr indent indentLevel = concat (replicate indentLevel indent)"

fun dump :: "('d \<Rightarrow> string) \<Rightarrow> string \<Rightarrow> nat \<Rightarrow> 'd JsonValue \<Rightarrow> fault + string"
  and dump_elements ::
    "('d \<Rightarrow> string) \<Rightarrow> string \<Rightarrow> nat \<Rightarrow> 'd JsonValue list \<Rightarrow> fault + string"
  and dump_members ::
    "('d \<Rightarrow> string) \<Rightarrow> string \<Rightarrow> nat \<Rightarrow> (string \<times> 'd JsonValue) list \<Rightarrow> fault + string"
where
  "dump to_string indent indentLevel Invalid = Inl AssertionFailed"
| "dump to_string indent indentLevel Null = Inr ''null''"
| "dump to_string indent indentLevel (Bool b) = Inr (if b then ''true'' else ''false'')"
| "dump to_string indent indentLevel (Number n) = Inr (to_string n)"
| "dump to_string indent indentLevel (String s) = Inr ([quote] @ s @ [quote])"
| "dump to_string indent indentLevel (Array arr) =
     (case dump_elements to_string indent indentLevel arr of
        Inl f \<Rightarrow> Inl f
      | Inr ret \<Rightarrow> Inr (''['' @ [newline] @ ret @ indentStr indent indentLevel @ '']''))"
| "dump to_string indent indentLevel (Object obj) =
     (case dump_members to_string indent indentLevel obj of
        Inl f \<Rightarrow> Inl f
      | Inr ret \<Rightarrow> Inr (''{'' @ [newline] @ ret @ indentStr indent indentLevel @ ''}''))"
| "dump_elements to_string indent indentLevel [] = Inr []"
| "dump_elements to_string indent indentLevel (v # arr) =
     (case dump to_string indent (indentLevel + 1) v of
        Inl f \<Rightarrow> Inl f
      | Inr d \<Rightarrow>
          (case dump_elements to_string indent indentLevel arr of
             Inl f \<Rightarrow> Inl f
           | Inr ret \<Rightarrow>
               Inr (indentStr indent indentLevel @ indent @ d
                    @ (if arr \<noteq> [] then '','' else []) @ [newline] @ ret)))"
| "dump_members to_string indent indentLevel [] = Inr []"
| "dump_members to_string indent indentLevel ((key, v) # obj) =
     (case dump to_string indent (indentLevel + 1) v of
        Inl f \<Rightarrow> Inl f
      | Inr d \<Rightarrow>
          (case dump_members to_string indent indentLevel obj of
             Inl f \<Rightarrow> Inl f
           | Inr ret \<Rightarrow>
               Inr (indentStr indent indentLevel @ indent @ [quote] @ key @ [quote] @ '': ''
                    @ d @ (if obj \<noteq> [] then '','' else []) @ [newline] @ ret)))"

section \<open>Diagnostics\<close>

text \<open>
  \<^verbatim>\<open>std::string_view::operator[]\<close> is defined below \<^verbatim>\<open>size()\<close> only.
  \<^verbatim>\<open>getContext\<close> (lines 349 to 363): its first loop reads
  \<^verbatim>\<open>str[lineStart]\<close> after testing \<^verbatim>\<open>lineStart > 0\<close> alone, its second
  loop tests \<^verbatim>\<open>lineEnd < str.size()\<close> before it reads.
\<close>

definition view_at :: "string \<Rightarrow> nat \<Rightarrow> char option" where
  "view_at str pos = (if pos < length str then Some (str ! pos) else None)"

function lineStart_loop :: "string \<Rightarrow> nat \<Rightarrow> fault + nat" where
  "lineStart_loop str lineStart =
     (if lineStart > 0 then
        (case view_at str lineStart of
           None \<Rightarrow> Inl OutOfRange
         | Some c \<Rightarrow> if c \<noteq> newline then lineStart_loop str (lineStart - 1) else Inr lineStart)
      else Inr lineStart)"
  by pat_completeness auto
termination
  by (relation "measure (\<lambda>(str, lineStart). lineStart)") auto

declare lineStart_loop.simps [simp del]

function lineEnd_loop :: "string \<Rightarrow> nat \<Rightarrow> nat" where
  "lineEnd_loop str lineEnd =
     (if lineEnd < length str \<and> str ! lineEnd \<noteq> newline
      then lineEnd_loop str (lineEnd + 1) else lineEnd)"
  by pat_completeness auto
termination
  by (relation "measure (\<lambda>(str, lineEnd). length str - lineEnd)") auto

declare lineEnd_loop.simps [simp del]

definition getContext :: "string \<Rightarrow> nat \<Rightarrow> fault + string" where
  "getContext str cur =
     (case lineStart_loop str cur of
        Inl f \<Rightarrow> Inl f
      | Inr lineStart0 \<Rightarrow>
          (case (if lineStart0 < cur then
                   (case view_at str lineStart0 of
                      None \<Rightarrow> Inl OutOfRange
                    | Some c \<Rightarrow> Inr (if c = newline then lineStart0 + 1 else lineStart0))
                 else Inr lineStart0) of
             Inl f \<Rightarrow> Inl f
           | Inr lineStart \<Rightarrow>
               let lineEnd = lineEnd_loop str lineStart in
               Inr (substr str lineStart (lineEnd - lineStart) @ [newline]
                    @ replicate (cur - lineStart) (CHR '' '') @ ''^'')))"

section \<open>A model of the two library conversions\<close>

text \<open>
  The general theorems below hold for every conversion passed as parameter. To run the
  parser and \<^verbatim>\<open>dump\<close> on concrete texts, this section gives one instance, written
  after the C++ standard: \<^verbatim>\<open>std::from_chars\<close> in its general format accepts an
  optional minus sign followed by \<^verbatim>\<open>inf\<close>, \<^verbatim>\<open>infinity\<close> or
  \<^verbatim>\<open>nan\<close> in any case, or by decimal digits with an optional point and an optional
  exponent, and no leading plus sign; \<^verbatim>\<open>std::to_string(double)\<close> prints as
  \<^verbatim>\<open>printf("%f")\<close> does (C++11 to C++23), with six digits after the point.
  A finite double is represented by the rational number it is.
  \<open>from_chars_model\<close> returns the exact value of the decimal text, which is the value
  of \<^verbatim>\<open>std::from_chars\<close> wherever that number is a double (the library rounds it to
  the nearest double otherwise); the instance is evaluated on such texts only.
\<close>

datatype double = Finite rat | Infinity bool | NaN bool

definition is_digit :: "char \<Rightarrow> bool" where
  "is_digit c \<longleftrightarrow> c \<in> set ''0123456789''"

definition digit_value :: "char \<Rightarrow> int" where
  "digit_value c = of_char c - 48"

definition digits_value :: "string \<Rightarrow> int" where
  "digits_value ds = foldl (\<lambda>a c. 10 * a + digit_value c) 0 ds"

definition to_lower :: "char \<Rightarrow> char" where
  "to_lower c = (if CHR ''A'' \<le> c \<and> c \<le> CHR ''Z'' then char_of (of_char c + (32 :: nat)) else c)"

definition exponent_part :: "string \<Rightarrow> nat \<times> int" where
  "exponent_part r =
     (case r of
        [] \<Rightarrow> (0, 0)
      | c # t \<Rightarrow>
          if c = CHR ''e'' \<or> c = CHR ''E'' then
            (case (case t of
                     [] \<Rightarrow> (1, 0, t)
                   | d # u \<Rightarrow>
                       if d = CHR ''+'' then (1, 1, u)
                       else if d = CHR ''-'' then (- 1, 1, u)
                       else (1, 0, t)) of
               (sg, slen, t') \<Rightarrow>
                 let ds = takeWhile is_digit t' in
                 if ds = [] then (0, 0)
                 else (1 + slen + length ds, sg * digits_value ds))
          else (0, 0))"

definition pow10 :: "int \<Rightarrow> rat" where
  "pow10 k = (if k \<ge> 0 then 10 ^ nat k else 1 / 10 ^ nat (- k))"

definition from_chars_model :: "double from_chars" where
  "from_chars_model s =
     (let neg = (s \<noteq> [] \<and> hd s = CHR ''-'');
          off = (if neg then 1 else 0);
          r = drop off s
      in if map to_lower (take 8 r) = ''infinity'' then (off + 8, Some (Infinity neg))
         else if map to_lower (take 3 r) = ''inf'' then (off + 3, Some (Infinity neg))
         else if map to_lower (take 3 r) = ''nan'' then (off + 3, Some (NaN neg))
         else
           let ip = takeWhile is_digit r;
               r1 = dropWhile is_digit r;
               dot = (r1 \<noteq> [] \<and> hd r1 = CHR ''.'');
               fp = (if dot then takeWhile is_digit (tl r1) else []);
               r2 = (if dot then dropWhile is_digit (tl r1) else r1)
           in if ip = [] \<and> fp = [] then (0, None)
              else
                (case exponent_part r2 of
                   (elen, ex) \<Rightarrow>
                     let q = of_int (digits_value (ip @ fp)) * pow10 (ex - int (length fp));
                         n = off + length ip + (if dot then 1 else 0) + length fp + elen
                     in if q \<ge> 2 ^ 1024 then (n, None)
                        else (n, Some (Finite (if neg then - q else q)))))"

function show_digits :: "int \<Rightarrow> string" where
  "show_digits n =
     (if n < 10 then [char_of (48 + n)]
      else show_digits (n div 10) @ [char_of (48 + n mod 10)])"
  by pat_completeness auto
termination
  by (relation "measure nat") auto

declare show_digits.simps [simp del]

definition round_half_even :: "rat \<Rightarrow> int" where
  "round_half_even x =
     (let f = \<lfloor>x\<rfloor>; r = x - of_int f in
      if r < 1 / 2 then f else if r > 1 / 2 then f + 1 else if even f then f else f + 1)"

definition to_string_model :: "double \<Rightarrow> string" where
  "to_string_model d =
     (case d of
        NaN s \<Rightarrow> (if s then ''-nan'' else ''nan'')
      | Infinity s \<Rightarrow> (if s then ''-inf'' else ''inf'')
      | Finite q \<Rightarrow>
          let m = round_half_even (\<bar>q\<bar> * 1000000);
              frac = show_digits (m mod 1000000)
          in (if q < 0 then ''-'' else '''') @ show_digits (m div 1000000) @ ''.''
             @ replicate (6 - length frac) (CHR ''0'') @ frac)"

section \<open>Predicates used in the properties\<close>

text \<open>
  The trees whose serialization is read back: no \<^verbatim>\<open>Invalid\<close> anywhere; strings and
  keys without quote and backslash; the keys of an object strictly increasing, as a
  \<^verbatim>\<open>std::map\<close> keeps them; and every number read back by the two conversions: its
  text is made of scanned characters, is none of the three literals, and is converted
  as a whole to the same number.
\<close>

definition plain_string :: "string \<Rightarrow> bool" where
  "plain_string s \<longleftrightarrow> quote \<notin> set s \<and> backslash \<notin> set s"

definition number_reads_back :: "'d from_chars \<Rightarrow> ('d \<Rightarrow> string) \<Rightarrow> 'd \<Rightarrow> bool" where
  "number_reads_back fc to_string n \<longleftrightarrow>
     to_string n \<noteq> [] \<and> set (to_string n) \<subseteq> set valueChars
     \<and> to_string n \<noteq> ''null'' \<and> to_string n \<noteq> ''true'' \<and> to_string n \<noteq> ''false''
     \<and> fc (to_string n) = (length (to_string n), Some n)"

fun reads_back :: "'d from_chars \<Rightarrow> ('d \<Rightarrow> string) \<Rightarrow> 'd JsonValue \<Rightarrow> bool"
  and reads_back_elements :: "'d from_chars \<Rightarrow> ('d \<Rightarrow> string) \<Rightarrow> 'd JsonValue list \<Rightarrow> bool"
  and reads_back_members ::
    "'d from_chars \<Rightarrow> ('d \<Rightarrow> string) \<Rightarrow> (string \<times> 'd JsonValue) list \<Rightarrow> bool"
where
  "reads_back fc to_string Invalid = False"
| "reads_back fc to_string Null = True"
| "reads_back fc to_string (Bool b) = True"
| "reads_back fc to_string (Number n) = number_reads_back fc to_string n"
| "reads_back fc to_string (String s) = plain_string s"
| "reads_back fc to_string (Array arr) = reads_back_elements fc to_string arr"
| "reads_back fc to_string (Object obj) =
     (reads_back_members fc to_string obj \<and> sorted_wrt (<) (map fst obj))"
| "reads_back_elements fc to_string [] = True"
| "reads_back_elements fc to_string (v # arr) =
     (reads_back fc to_string v \<and> reads_back_elements fc to_string arr)"
| "reads_back_members fc to_string [] = True"
| "reads_back_members fc to_string ((key, v) # obj) =
     (plain_string key \<and> reads_back fc to_string v \<and> reads_back_members fc to_string obj)"

text \<open>
  What the parser does on a text in context: \<open>parses_back fc d v\<close> says that the text
  \<open>d\<close>, wherever it stands in a buffer and followed by the end of the buffer or by a
  character that ends a token, is parsed to \<open>v\<close> with the cursor left right after it;
  the other two say the same of the loops on the text of the remaining elements or
  members followed by the closing bracket.
\<close>

definition parses_back :: "'d from_chars \<Rightarrow> string \<Rightarrow> 'd JsonValue \<Rightarrow> bool" where
  "parses_back fc d v \<longleftrightarrow>
     d \<noteq> [] \<and> \<not> isWhitespace (hd d) \<and> hd d \<noteq> CHR '']'' \<and> hd d \<noteq> CHR ''}''
     \<and> (\<forall>pre post. (post = [] \<or> hd post \<notin> set valueChars) \<longrightarrow>
           parseValue fc (pre @ d @ post) (length pre) = (Ok v, length pre + length d))"

definition elements_parse_back ::
  "'d from_chars \<Rightarrow> string \<Rightarrow> 'd JsonValue list \<Rightarrow> bool" where
  "elements_parse_back fc ret arr \<longleftrightarrow>
     (arr = [] \<longrightarrow> ret = [])
     \<and> (arr \<noteq> [] \<longrightarrow> ret \<noteq> [] \<and> \<not> isWhitespace (hd ret) \<and> hd ret \<noteq> CHR '']'')
     \<and> (\<forall>pre ws post vals. (\<forall>c\<in>set ws. isWhitespace c) \<longrightarrow>
           parseArray fc (pre @ ws @ ret @ CHR '']'' # post) (length pre) vals
             = (Ok (Array (vals @ arr)), length pre + length ws + length ret + 1))"

definition members_parse_back ::
  "'d from_chars \<Rightarrow> string \<Rightarrow> (string \<times> 'd JsonValue) list \<Rightarrow> bool" where
  "members_parse_back fc ret obj \<longleftrightarrow>
     (obj = [] \<longrightarrow> ret = [])
     \<and> (obj \<noteq> [] \<longrightarrow> ret \<noteq> [] \<and> hd ret = quote)
     \<and> (\<forall>pre ws post acc. (\<forall>c\<in>set ws. isWhitespace c) \<longrightarrow>
           sorted_wrt (<) (map fst (acc @ obj)) \<longrightarrow>
           parseObject fc (pre @ ws @ ret @ CHR ''}'' # post) (length pre) acc
             = (Ok (Object (acc @ obj)), length pre + length ws + length ret + 1))"

subsection \<open>Texts of values\<close>

text \<open>
  The texts of complete values, after the grammar of the parser: the three literals; a
  number, written as a token of scanned characters that \<^verbatim>\<open>std::from_chars\<close> converts
  as a whole; a string between quotes; an array and an object, with whitespace wherever
  the grammar allows it and a comma allowed in front of the closing bracket. A text is
  given as the tree of what is written: \<open>render\<close> is its sequence of characters and
  \<open>value_of\<close> the value it stands for (in an object, a key written twice keeps its first
  value, as \<^verbatim>\<open>emplace\<close> has it). \<open>well_formed\<close> says that the whitespace is made of
  space, tab and newline, that strings and keys hold no quote and no backslash, and that
  every number token is converted to the number recorded with it. A string, an array and
  an object end with their own closing character; a literal and a number end where the
  scanned characters end.
\<close>

datatype 'd value_text =
    NullText
  | TrueText
  | FalseText
  | NumberText string 'd
  | StringText string
  | EmptyArrayText string
  | ArrayText string "'d elements_text"
  | EmptyObjectText string
  | ObjectText string "'d members_text"
and 'd elements_text =
    LastElement "'d value_text" string "string option"
  | Element "'d value_text" string string "'d elements_text"
and 'd members_text =
    LastMember string string string "'d value_text" string "string option"
  | Member string string string "'d value_text" string string "'d members_text"

definition trailing_comma :: "string option \<Rightarrow> string" where
  "trailing_comma t = (case t of None \<Rightarrow> [] | Some ws \<Rightarrow> CHR '','' # ws)"

fun render :: "'d value_text \<Rightarrow> string"
  and render_elements :: "'d elements_text \<Rightarrow> string"
  and render_members :: "'d members_text \<Rightarrow> string"
where
  "render NullText = ''null''"
| "render TrueText = ''true''"
| "render FalseText = ''false''"
| "render (NumberText tok d) = tok"
| "render (StringText s) = quote # s @ [quote]"
| "render (EmptyArrayText ws) = CHR ''['' # ws @ '']''"
| "render (ArrayText ws es) = CHR ''['' # ws @ render_elements es @ '']''"
| "render (EmptyObjectText ws) = CHR ''{'' # ws @ ''}''"
| "render (ObjectText ws ms) = CHR ''{'' # ws @ render_members ms @ ''}''"
| "render_elements (LastElement v ws t) = render v @ ws @ trailing_comma t"
| "render_elements (Element v ws ws' es) = render v @ ws @ CHR '','' # ws' @ render_elements es"
| "render_members (LastMember key ws1 ws2 v ws3 t) =
     quote # key @ quote # ws1 @ CHR '':'' # ws2 @ render v @ ws3 @ trailing_comma t"
| "render_members (Member key ws1 ws2 v ws3 ws4 ms) =
     quote # key @ quote # ws1 @ CHR '':'' # ws2 @ render v @ ws3 @ CHR '','' # ws4
       @ render_members ms"

fun value_of :: "'d value_text \<Rightarrow> 'd JsonValue"
  and elements_of :: "'d elements_text \<Rightarrow> 'd JsonValue list"
  and members_of :: "'d members_text \<Rightarrow> (string \<times> 'd JsonValue) list"
where
  "value_of NullText = Null"
| "value_of TrueText = Bool True"
| "value_of FalseText = Bool False"
| "value_of (NumberText tok d) = Number d"
| "value_of (StringText s) = String s"
| "value_of (EmptyArrayText ws) = Array []"
| "value_of (ArrayText ws es) = Array (elements_of es)"
| "value_of (EmptyObjectText ws) = Object []"
| "value_of (ObjectText ws ms) =
     Object (foldl (\<lambda>obj (key, v). emplace obj key v) [] (members_of ms))"
| "elements_of (LastElement v ws t) = [value_of v]"
| "elements_of (Element v ws ws' es) = value_of v # elements_of es"
| "members_of (LastMember key ws1 ws2 v ws3 t) = [(key, value_of v)]"
| "members_of (Member key ws1 ws2 v ws3 ws4 ms) = (key, value_of v) # members_of ms"

definition whitespace :: "string \<Rightarrow> bool" where
  "whitespace ws \<longleftrightarrow> list_all isWhitespace ws"

definition number_token :: "'d from_chars \<Rightarrow> string \<Rightarrow> 'd \<Rightarrow> bool" where
  "number_token fc tok d \<longleftrightarrow>
     tok \<noteq> [] \<and> set tok \<subseteq> set valueChars
     \<and> tok \<noteq> ''null'' \<and> tok \<noteq> ''true'' \<and> tok \<noteq> ''false''
     \<and> fc tok = (length tok, Some d)"

fun well_formed :: "'d from_chars \<Rightarrow> 'd value_text \<Rightarrow> bool"
  and well_formed_elements :: "'d from_chars \<Rightarrow> 'd elements_text \<Rightarrow> bool"
  and well_formed_members :: "'d from_chars \<Rightarrow> 'd members_text \<Rightarrow> bool"
where
  "well_formed fc NullText = True"
| "well_formed fc TrueText = True"
| "well_formed fc FalseText = True"
| "well_formed fc (NumberText tok d) = number_token fc tok d"
| "well_formed fc (StringText s) = plain_string s"
| "well_formed fc (EmptyArrayText ws) = whitespace ws"
| "well_formed fc (ArrayText ws es) = (whitespace ws \<and> well_formed_elements fc es)"
| "well_formed fc (EmptyObjectText ws) = whitespace ws"
| "well_formed fc (ObjectText ws ms) = (whitespace ws \<and> well_formed_members fc ms)"
| "well_formed_elements fc (LastElement v ws t) =
     (well_formed fc v \<and> whitespace ws \<and> whitespace (case t of None \<Rightarrow> [] | Some ws' \<Rightarrow> ws'))"
| "well_formed_elements fc (Element v ws ws' es) =
     (well_formed fc v \<and> whitespace ws \<and> whitespace ws' \<and> well_formed_elements fc es)"
| "well_formed_members fc (LastMember key ws1 ws2 v ws3 t) =
     (plain_string key \<and> whitespace ws1 \<and> whitespace ws2 \<and> well_formed fc v \<and> whitespace ws3
      \<and> whitespace (case t of None \<Rightarrow> [] | Some ws' \<Rightarrow> ws'))"
| "well_formed_members fc (Member key ws1 ws2 v ws3 ws4 ms) =
     (plain_string key \<and> whitespace ws1 \<and> whitespace ws2 \<and> well_formed fc v \<and> whitespace ws3
      \<and> whitespace ws4 \<and> well_formed_members fc ms)"

fun self_delimiting :: "'d value_text \<Rightarrow> bool" where
  "self_delimiting NullText = False"
| "self_delimiting TrueText = False"
| "self_delimiting FalseText = False"
| "self_delimiting (NumberText tok d) = False"
| "self_delimiting t = True"

section \<open>Properties\<close>

subsection \<open>Tokens in context\<close>

text \<open>
  The scanning functions on a buffer \<open>pre @ segment @ post\<close>, started at the first
  position of the segment.
\<close>

lemma skipWhitespace_segment:
  assumes "\<forall>c\<in>set ws. isWhitespace c" and "post = [] \<or> \<not> isWhitespace (hd post)"
  shows "skipWhitespace (pre @ ws @ post) (length pre) = length pre + length ws"
  using assms
proof (induction ws arbitrary: pre)
  case Nil
  then show ?case
    by (subst skipWhitespace.simps) (auto simp: nth_append hd_conv_nth)
next
  case (Cons w ws)
  have "skipWhitespace (pre @ (w # ws) @ post) (length pre)
      = skipWhitespace ((pre @ [w]) @ ws @ post) (length (pre @ [w]))"
    using Cons.prems by (subst skipWhitespace.simps) (simp add: nth_append)
  also have "\<dots> = length (pre @ [w]) + length ws"
    using Cons.prems by (intro Cons.IH) auto
  finally show ?case by simp
qed

lemma find_first_not_of_segment:
  assumes "set tok \<subseteq> set chars" and "post = [] \<or> hd post \<notin> set chars"
  shows "find_first_not_of (pre @ tok @ post) chars (length pre)
         = (if post = [] then None else Some (length pre + length tok))"
  using assms
proof (induction tok arbitrary: pre)
  case Nil
  then show ?case
    by (subst find_first_not_of.simps) (auto simp: nth_append hd_conv_nth)
next
  case (Cons c tok)
  have "find_first_not_of (pre @ (c # tok) @ post) chars (length pre)
      = find_first_not_of ((pre @ [c]) @ tok @ post) chars (length (pre @ [c]))"
    using Cons.prems by (subst find_first_not_of.simps) (simp add: nth_append)
  also have "\<dots> = (if post = [] then None else Some (length (pre @ [c]) + length tok))"
    using Cons.prems by (intro Cons.IH) auto
  finally show ?case by simp
qed

lemma valueToken_segment:
  assumes "set tok \<subseteq> set valueChars" and "post = [] \<or> hd post \<notin> set valueChars"
  shows "valueToken (pre @ tok @ post) (length pre) = tok"
  using find_first_not_of_segment[OF assms, of pre]
  by (simp add: valueToken_def substr_def)

lemma not_whitespace_valueChars: "c \<in> set valueChars \<Longrightarrow> \<not> isWhitespace c"
  by (auto simp: valueChars_def isWhitespace_def)

lemma parseValue_literal_segment:
  assumes "tok \<noteq> []" "set tok \<subseteq> set valueChars" "post = [] \<or> hd post \<notin> set valueChars"
  shows "parseValue fc (pre @ tok @ post) (length pre) = parseLiteral fc (pre @ tok @ post) (length pre)"
proof -
  have hd: "hd tok \<in> set valueChars" using assms by (cases tok) auto
  have nth: "(pre @ tok @ post) ! length pre = hd tok"
    using assms(1) by (cases tok) (auto simp: nth_append)
  have sk: "skipWhitespace (pre @ tok @ post) (length pre) = length pre"
    using skipWhitespace_segment[of "[]" "tok @ post" pre] not_whitespace_valueChars[OF hd] assms(1)
    by simp
  have "hd tok \<noteq> CHR ''{''" "hd tok \<noteq> CHR ''[''" "hd tok \<noteq> quote"
    using hd by (auto simp: valueChars_def)
  then show ?thesis
    using assms(1) by (subst parseValue.simps) (simp add: sk nth)
qed

lemma upper_in_valueChars:
  assumes "CHR ''A'' \<le> c" "c \<le> CHR ''Z''"
  shows "c \<in> set valueChars"
proof -
  have all: "list_all (\<lambda>n. char_of n \<in> set valueChars) [65..<91]"
    by code_simp
  have "of_char c \<in> {65..<91::nat}" using assms by (simp add: less_eq_char_def)
  then have "of_char c \<in> set [65..<91]" by (simp only: set_upt)
  with all have "char_of (of_char c :: nat) \<in> set valueChars"
    unfolding list_all_iff by blast
  then show ?thesis by simp
qed

lemma to_lower_in_valueChars:
  assumes "to_lower c \<in> set ''infinityna''"
  shows "c \<in> set valueChars"
proof (cases "CHR ''A'' \<le> c \<and> c \<le> CHR ''Z''")
  case True
  then show ?thesis using upper_in_valueChars by blast
next
  case False
  then have "to_lower c = c" by (auto simp: to_lower_def)
  with assms have "c \<in> set ''infinityna''" by simp
  then show ?thesis by (auto simp: valueChars_def)
qed

lemma skipWhitespace_stay:
  "c < length src \<Longrightarrow> \<not> isWhitespace (src ! c) \<Longrightarrow> skipWhitespace src c = c"
  by (subst skipWhitespace.simps) simp

lemma parseValue_literal_text:
  assumes "tok \<noteq> []" "set tok \<subseteq> set valueChars" "post = [] \<or> hd post \<notin> set valueChars"
  shows "parseValue fc (pre @ tok @ post) (length pre)
         = (if tok = ''null'' then (Ok Null, length pre + length tok)
            else if tok = ''true'' then (Ok (Bool True), length pre + length tok)
            else if tok = ''false'' then (Ok (Bool False), length pre + length tok)
            else (case parseNumber fc tok of
                    None \<Rightarrow> (Err \<lparr>cursor = length pre, message = ''Invalid number''\<rparr>, length pre)
                  | Some number \<Rightarrow> (Ok (Number number), length pre + length tok)))"
  using assms(1)
  by (simp add: parseValue_literal_segment[OF assms] parseLiteral_def
      valueToken_segment[OF assms(2,3)])

lemma parseValue_number_text:
  assumes "tok \<noteq> []" "set tok \<subseteq> set valueChars" "post = [] \<or> hd post \<notin> set valueChars"
    and "tok \<noteq> ''null''" "tok \<noteq> ''true''" "tok \<noteq> ''false''"
    and "fc tok = (length tok, Some v)"
  shows "parseValue fc (pre @ tok @ post) (length pre) = (Ok (Number v), length pre + length tok)"
  using parseValue_literal_text[OF assms(1,2,3), of fc pre] assms(4,5,6,7)
  by (simp add: parseNumber_def)

lemma hd_valueChars:
  assumes "tok \<noteq> []" "set tok \<subseteq> set valueChars"
  shows "\<not> isWhitespace (hd tok) \<and> hd tok \<noteq> CHR '']'' \<and> hd tok \<noteq> CHR ''}''"
proof -
  have "hd tok \<in> set valueChars" using assms by (cases tok) auto
  then show ?thesis by (auto simp: valueChars_def isWhitespace_def)
qed

lemma nth_segment: "seg \<noteq> [] \<Longrightarrow> (pre @ seg @ post) ! length pre = hd seg"
  by (cases seg) (simp_all add: nth_append)

lemma parseString_loop_segment:
  "plain_string body \<Longrightarrow>
   parseString_loop (pre @ body @ quote # post) (length pre) acc
     = (Ok (acc @ body), length pre + length body + 1)"
proof (induction body arbitrary: pre acc)
  case Nil
  show ?case by (subst parseString_loop.simps) (simp add: nth_append)
next
  case (Cons c body)
  then have c: "c \<noteq> quote" "c \<noteq> backslash" and pl: "plain_string body"
    by (auto simp: plain_string_def)
  have "parseString_loop (pre @ (c # body) @ quote # post) (length pre) acc
      = parseString_loop ((pre @ [c]) @ body @ quote # post) (length (pre @ [c])) (acc @ [c])"
    using c by (subst parseString_loop.simps) (simp add: nth_append)
  also have "\<dots> = (Ok ((acc @ [c]) @ body), length (pre @ [c]) + length body + 1)"
    by (rule Cons.IH[OF pl])
  finally show ?case by simp
qed

lemma parseString_segment:
  assumes "plain_string body"
  shows "parseString (pre @ quote # body @ quote # post) (length pre)
         = (Ok body, length pre + length body + 2)"
proof -
  have "parseString (pre @ quote # body @ quote # post) (length pre)
      = parseString_loop ((pre @ [quote]) @ body @ quote # post) (length (pre @ [quote])) []"
    by (simp add: parseString_def nth_append)
  also have "\<dots> = (Ok ([] @ body), length (pre @ [quote]) + length body + 1)"
    by (rule parseString_loop_segment[OF assms])
  finally show ?thesis by simp
qed

subsection \<open>Escapes in strings\<close>

text \<open>
  After a backslash, line 24 reads \<^verbatim>\<open>str[cursor]\<close>: the string built so far, not
  the source, at the cursor of the source. The string built so far is shorter than the
  cursor (the opening quote is read and not stored), so the read lies beyond its end,
  whatever follows the backslash.
\<close>

lemma parseString_loop_backslash:
  "plain_string body \<Longrightarrow> length acc \<le> length pre \<Longrightarrow>
   parseString_loop (pre @ body @ backslash # c # rest) (length pre) acc
     = (Fault OutOfRange, length pre + length body + 1)"
proof (induction body arbitrary: pre acc)
  case Nil
  then show ?case
    by (subst parseString_loop.simps) (simp add: nth_append string_at_def)
next
  case (Cons b body)
  then have b: "b \<noteq> quote" "b \<noteq> backslash" and pl: "plain_string body"
    by (auto simp: plain_string_def)
  have "parseString_loop (pre @ (b # body) @ backslash # c # rest) (length pre) acc
      = parseString_loop ((pre @ [b]) @ body @ backslash # c # rest) (length (pre @ [b])) (acc @ [b])"
    using b by (subst parseString_loop.simps) (simp add: nth_append)
  also have "\<dots> = (Fault OutOfRange, length (pre @ [b]) + length body + 1)"
    using Cons.prems(2) by (intro Cons.IH[OF pl]) simp
  finally show ?case by simp
qed

lemma parse_string_backslash:
  assumes "plain_string body"
  shows "parse fc (quote # body @ backslash # c # rest) = Fault OutOfRange"
proof -
  define src where "src = quote # body @ backslash # c # rest"
  have sk: "skipWhitespace src 0 = 0"
    by (rule skipWhitespace_stay) (simp_all add: src_def isWhitespace_def)
  have "parseString_loop ([quote] @ body @ backslash # c # rest) (length [quote]) []
      = (Fault OutOfRange, length [quote] + length body + 1)"
    by (rule parseString_loop_backslash[OF assms]) simp
  then have ps: "parseString src 0 = (Fault OutOfRange, length body + 2)"
    by (simp add: parseString_def src_def)
  have "parseValue fc src 0 = (Fault OutOfRange, length body + 2)"
    by (subst parseValue.simps) (simp add: sk ps, simp add: src_def)
  then show ?thesis by (simp add: parse_def src_def)
qed

text \<open>
  C1 (the escape after a backslash is replaced by its one-character meaning) fails on the
  code: a string token with a backslash followed by any character \<open>c\<close> runs into the
  out-of-range read, and \<open>c\<close> is never looked at. This holds for every token whose
  characters before the backslash are plain, for every \<open>c\<close>, also for \<open>c = n\<close>, where
  the claim promises a string holding one newline, and for everything that follows.
\<close>

theorem parse_escape_reads_built_string:
  assumes "plain_string body"
  shows "parse fc (quote # body @ backslash # c # rest) = Fault OutOfRange"
  using assms by (rule parse_string_backslash)

theorem parse_escape_reads_built_string_witness:
  "parse from_chars_model [quote, backslash, CHR ''n'', quote] = Fault OutOfRange
   \<and> parse from_chars_model [quote, backslash, CHR ''n'', quote] \<noteq> Ok (String [newline])"
proof -
  have "plain_string []" by (simp add: plain_string_def)
  from parse_escape_reads_built_string[OF this, of from_chars_model "CHR ''n''" "[quote]"]
  show ?thesis by simp
qed

text \<open>
  C3 (a backslash-u escape fails with the message
  \<^verbatim>\<open>Unicode escapes are not implemented yet\<close>) fails on the code for the same reason:
  the test \<^verbatim>\<open>c == 'u'\<close> is made on the out-of-range read, not on the \<^verbatim>\<open>u\<close> of
  the source.
\<close>

theorem parse_unicode_escape_not_reported:
  assumes "plain_string body"
  shows "parse fc (quote # body @ backslash # CHR ''u'' # rest) = Fault OutOfRange"
  using assms by (rule parse_string_backslash)

theorem parse_unicode_escape_not_reported_witness:
  "parse from_chars_model ([quote, backslash] @ ''u0041'' @ [quote]) = Fault OutOfRange
   \<and> parse from_chars_model ([quote, backslash] @ ''u0041'' @ [quote])
       \<noteq> Err \<lparr>cursor = 2, message = ''Unicode escapes are not implemented yet''\<rparr>"
proof -
  have "plain_string []" by (simp add: plain_string_def)
  from parse_unicode_escape_not_reported[OF this, of from_chars_model "''0041'' @ [quote]"]
  show ?thesis by simp
qed

subsection \<open>Unterminated containers\<close>

text \<open>
  C2 (a buffer that ends inside an array or object gives \<^verbatim>\<open>Unterminated array\<close> or
  \<^verbatim>\<open>Unterminated object\<close>) fails on the code. The loops of \<^verbatim>\<open>parseArray\<close>
  and \<^verbatim>\<open>parseObject\<close> run \<^verbatim>\<open>while (cursor < source.size())\<close>: entered or
  re-entered with the buffer exhausted, that is right after the opening bracket or right
  after a separator, the loop is left and the container built so far is returned as a
  success.
\<close>

theorem exhausted_container_returned:
  assumes "length source \<le> cur"
  shows "parseArray fc source cur vals = (Ok (Array vals), cur)
         \<and> parseObject fc source cur obj = (Ok (Object obj), cur)"
  using assms by (subst parseArray.simps, subst parseObject.simps) simp

text \<open>The three inputs the claim names all parse successfully.\<close>

theorem exhausted_container_returned_witness:
  "parse from_chars_model ''['' = Ok (Array [])
   \<and> parse from_chars_model ''[1,'' = Ok (Array [Number (Finite 1)])
   \<and> parse from_chars_model ''{'' = Ok (Object [])"
proof -
  have a: "parseValue from_chars_model ''['' 0 = parseArray from_chars_model ''['' 1 []"
    by (subst parseValue.simps) (simp add: skipWhitespace.simps isWhitespace_def)
  have b: "parseValue from_chars_model ''{'' 0 = parseObject from_chars_model ''{'' 1 []"
    by (subst parseValue.simps) (simp add: skipWhitespace.simps isWhitespace_def)
  have le: "length ''['' \<le> 1" "length ''{'' \<le> 1" by simp_all
  have "parse from_chars_model ''['' = Ok (Array [])"
    using exhausted_container_returned[OF le(1), of from_chars_model "[]"] a
    by (simp add: parse_def)
  moreover have "parse from_chars_model ''{'' = Ok (Object [])"
    using exhausted_container_returned[OF le(2), of from_chars_model _ "[]"] b
    by (simp add: parse_def)
  moreover have "parse from_chars_model ''[1,'' = Ok (Array [Number (Finite 1)])"
    by code_simp
  ultimately show ?thesis by simp
qed

subsection \<open>The scanned character set\<close>

text \<open>
  C6 (the scan captures the maximal run over the digits, all letters a-z and A-Z, and
  \<open>.+-\<close>) fails on the code: the constant \<^verbatim>\<open>valueChars\<close> has no \<open>k\<close>, so a
  token of scanned characters stops in front of a lower-case k, wherever it stands.
\<close>

theorem token_stops_at_k:
  "CHR ''k'' \<notin> set valueChars
   \<and> (set tok \<subseteq> set valueChars \<longrightarrow> valueToken (pre @ tok @ CHR ''k'' # post) (length pre) = tok)"
  using valueToken_segment[of tok "CHR ''k'' # post" pre]
  by (simp add: valueChars_def)

text \<open>
  On \<open>k\<close> the captured token is empty and the parse reports
  \<^verbatim>\<open>Value must not be empty\<close>; on \<open>1k\<close> the token is \<open>1\<close> and the parse
  succeeds.
\<close>

theorem token_stops_at_k_witness:
  "valueToken ''k'' 0 = []
   \<and> parse from_chars_model ''k'' = Err \<lparr>cursor = 0, message = ''Value must not be empty''\<rparr>
   \<and> valueToken ''1k'' 0 = ''1''
   \<and> parse from_chars_model ''1k'' = Ok (Number (Finite 1))"
proof -
  have s: "set ''1'' \<subseteq> set valueChars" "set [] \<subseteq> set valueChars"
    by (simp_all add: valueChars_def)
  have "valueToken ''1k'' 0 = ''1''"
    using token_stops_at_k[of "''1''" "[]" "[]"] s by simp
  moreover have "valueToken ''k'' 0 = []"
    using token_stops_at_k[of "[]" "[]" "[]"] by simp
  moreover have "parse from_chars_model ''k''
      = Err \<lparr>cursor = 0, message = ''Value must not be empty''\<rparr>"
    by code_simp
  moreover have "parse from_chars_model ''1k'' = Ok (Number (Finite 1))"
    by code_simp
  ultimately show ?thesis by simp
qed

subsection \<open>Diagnostics at the end of the buffer\<close>

text \<open>
  C5 (for every cursor up to the length of the buffer, \<^verbatim>\<open>getContext\<close> reads nothing
  out of range) fails on the code: with the cursor at the end of a buffer that is not
  empty, the first loop reads \<^verbatim>\<open>str[str.size()]\<close>.
\<close>

theorem getContext_at_end_out_of_range:
  "str \<noteq> [] \<Longrightarrow> getContext str (length str) = Inl OutOfRange"
  by (simp add: getContext_def lineStart_loop.simps view_at_def)

text \<open>
  Such a cursor is what \<^verbatim>\<open>parse\<close> reports for an unterminated string, and what the
  demonstration programs pass to \<^verbatim>\<open>getContext\<close>.
\<close>

theorem getContext_at_end_out_of_range_witness:
  "parse from_chars_model (quote # ''abc'') = Err \<lparr>cursor = 4, message = ''Unterminated string''\<rparr>
   \<and> getContext (quote # ''abc'') 4 = Inl OutOfRange"
proof -
  have "quote # ''abc'' \<noteq> []" by simp
  from getContext_at_end_out_of_range[OF this]
  have "getContext (quote # ''abc'') 4 = Inl OutOfRange"
    by (simp add: eval_nat_numeral)
  moreover have "parse from_chars_model (quote # ''abc'')
      = Err \<lparr>cursor = 4, message = ''Unterminated string''\<rparr>"
    by code_simp
  ultimately show ?thesis by simp
qed

subsection \<open>Total lookup\<close>

text \<open>
  C7: for every value, key and index, the two lookups end in no fault. On an object that
  has the key, and on an array with the index in range, they return that member or
  element; in every other case they return the value of \<^verbatim>\<open>getNonExistent\<close>, which is
  \<^verbatim>\<open>Invalid\<close>, and \<^verbatim>\<open>isValid\<close> is false on it.
\<close>

theorem lookup_total:
  "lookup_key v key =
     Inr (case v of
            Object obj \<Rightarrow> (case map_of obj key of Some member \<Rightarrow> member | None \<Rightarrow> Invalid)
          | _ \<Rightarrow> Invalid)
   \<and> lookup_index v index =
     Inr (case v of
            Array a \<Rightarrow> if index < length a then a ! index else Invalid
          | _ \<Rightarrow> Invalid)
   \<and> getNonExistent = (Invalid :: 'd JsonValue)
   \<and> \<not> isValid (getNonExistent :: 'd JsonValue)"
  by (cases v)
     (simp_all add: lookup_key_def lookup_index_def isObject_def isArray_def asObject_def
        asArray_def size_value_def isValid_def isNull_def getNonExistent_def vector_at_def
        split: option.splits)

subsection \<open>Termination\<close>

text \<open>
  The parser beyond the unchecked read is the parser above when the read stops, and it
  ends in a fault only there: no assertion of \<^verbatim>\<open>parseString\<close> fails.
\<close>

lemma string_at_reading_None: "string_at_reading (\<lambda>str pos. None) = string_at"
  by (intro ext) (simp add: string_at_reading_def string_at_def)

lemma parseString_loop_reading_None:
  "parseString_loop_reading (\<lambda>str pos. None) source cur str = parseString_loop source cur str"
proof (induction source cur str rule: parseString_loop.induct)
  case (1 source cur str)
  show ?case
    apply (subst parseString_loop_reading.simps)
    apply (subst parseString_loop.simps)
    using "1.IH"
    apply (simp add: string_at_reading_None Let_def split: option.splits)
    done
qed

lemma parseString_reading_None:
  "parseString_reading (\<lambda>str pos. None) source cur = parseString source cur"
  by (simp add: parseString_reading_def parseString_def parseString_loop_reading_None)

lemma parse_reading_None:
  "parseValue_reading (\<lambda>str pos. None) fc source cur = parseValue fc source cur"
  "parseArray_reading (\<lambda>str pos. None) fc source cur vals = parseArray fc source cur vals"
  "parseObject_reading (\<lambda>str pos. None) fc source cur obj = parseObject fc source cur obj"
proof (induction fc source cur and fc source cur vals and fc source cur obj
    rule: parseValue_parseArray_parseObject.induct)
  case (1 fc source cur0)
  show ?case
    apply (subst parseValue_reading.simps)
    apply (subst parseValue.simps)
    using "1.IH"
    apply (simp add: parseString_reading_None Let_def)
    done
next
  case (2 fc source cur0 vals)
  show ?case
    apply (subst parseArray_reading.simps)
    apply (subst parseArray.simps)
    using "2.IH"
    apply (simp add: Let_def split: prod.splits Result.splits)
    done
next
  case (3 fc source cur0 obj)
  show ?case
    apply (subst parseObject_reading.simps)
    apply (subst parseObject.simps)
    using "3.IH"
    apply (simp add: parseString_reading_None Let_def split: prod.splits Result.splits)
    done
qed

lemma parseString_loop_reading_fault:
  "fst (parseString_loop_reading beyond source cur str) = Fault f \<Longrightarrow>
     f = OutOfRange \<and> (\<exists>s pos. beyond s pos = None)"
proof (induction beyond source cur str rule: parseString_loop_reading.induct)
  case (1 beyond source cur str)
  from "1.prems" show ?case
    apply (subst (asm) parseString_loop_reading.simps)
    using "1.IH"
    apply (auto simp: Let_def string_at_reading_def split: option.splits if_splits)
    done
qed

lemma parseString_reading_fault:
  assumes "fst (parseString_reading beyond source cur) = Fault f"
    and "cur < length source" "source ! cur = quote"
  shows "f = OutOfRange \<and> (\<exists>s pos. beyond s pos = None)"
  using assms parseString_loop_reading_fault[of beyond source "cur + 1" "[]" f]
  by (simp add: parseString_reading_def)

lemma parse_reading_fault:
  "fst (parseValue_reading beyond fc source cur) = Fault f \<Longrightarrow>
     f = OutOfRange \<and> (\<exists>s pos. beyond s pos = None)"
  "fst (parseArray_reading beyond fc source cur vals) = Fault f \<Longrightarrow>
     f = OutOfRange \<and> (\<exists>s pos. beyond s pos = None)"
  "fst (parseObject_reading beyond fc source cur obj) = Fault f \<Longrightarrow>
     f = OutOfRange \<and> (\<exists>s pos. beyond s pos = None)"
proof (induction beyond fc source cur and beyond fc source cur vals and beyond fc source cur obj
    rule: parseValue_reading_parseArray_reading_parseObject_reading.induct)
  case (1 beyond fc source cur0)
  define cur where "cur = skipWhitespace source cur0"
  note IH = "1.IH"[OF cur_def]
  from "1.prems" show ?case
    apply (subst (asm) parseValue_reading.simps)
    unfolding cur_def[symmetric] Let_def
    using IH parseString_reading_fault[of beyond source cur f]
    apply (auto simp: parseLiteral_def Let_def split: if_splits prod.splits Result.splits option.splits)
    done
next
  case (2 beyond fc source cur0 vals)
  define cur where "cur = skipWhitespace source cur0"
  from "2.prems" show ?case
    apply (subst (asm) parseArray_reading.simps)
    unfolding cur_def[symmetric] Let_def
    using "2.IH"[OF _ cur_def]
    apply (auto split: if_splits prod.splits Result.splits)
    done
next
  case (3 beyond fc source cur0 obj)
  define cur where "cur = skipWhitespace source cur0"
  from "3.prems" show ?case
    apply (subst (asm) parseObject_reading.simps)
    unfolding cur_def[symmetric] Let_def
    using "3.IH"[OF _ cur_def] parseString_reading_fault[of beyond source cur f]
    apply (auto split: if_splits prod.splits Result.splits)
    done
qed

lemma Ok_or_Err:
  assumes "\<And>f. r = Fault f \<Longrightarrow> False"
  shows "(\<exists>v. r = Ok v) \<or> (\<exists>e. r = Err e)"
  using assms by (cases r) auto

text \<open>
  C8: \<^verbatim>\<open>parse\<close> terminates on every buffer, and every call returns. Every call of
  \<^verbatim>\<open>parseValue\<close> and of the two loops lies in the domain of the recursion, for every
  conversion, buffer, cursor and container built so far; the proof decreases the distance
  of the cursor to the end of the buffer. No call moves the cursor back, a sub-parse that
  returns a value has moved it forward by at least one position, and a cursor inside the
  buffer stays inside it. The only fault a call can end in is the read beyond the string
  being built.

  The same holds of the parser that goes on after that read, whatever each read does
  (\<open>beyond\<close>): it is total and its cursor obeys the same bounds. When every read delivers
  a byte (\<open>byte\<close>), every call returns a value or an error.
\<close>

theorem parse_terminates:
  "parseValue_parseArray_parseObject_dom (Inl (fc, source, cur))
   \<and> parseValue_parseArray_parseObject_dom (Inr (Inl (fc, source, cur, vals)))
   \<and> parseValue_parseArray_parseObject_dom (Inr (Inr (fc, source, cur, obj)))
   \<and> cur \<le> snd (parseValue fc source cur)
   \<and> cur \<le> snd (parseArray fc source cur vals)
   \<and> cur \<le> snd (parseObject fc source cur obj)
   \<and> (\<forall>v. fst (parseValue fc source cur) = Ok v \<longrightarrow> cur < snd (parseValue fc source cur))
   \<and> (cur \<le> length source \<longrightarrow>
        snd (parseValue fc source cur) \<le> length source
        \<and> snd (parseArray fc source cur vals) \<le> length source
        \<and> snd (parseObject fc source cur obj) \<le> length source)
   \<and> (\<forall>f. fst (parseValue fc source cur) = Fault f \<longrightarrow> f = OutOfRange)
   \<and> parseValue_reading (\<lambda>str pos. None) fc source cur = parseValue fc source cur
   \<and> parseValue_reading_parseArray_reading_parseObject_reading_dom
        (Inl (beyond, fc, source, cur))
   \<and> parseValue_reading_parseArray_reading_parseObject_reading_dom
        (Inr (Inl (beyond, fc, source, cur, vals)))
   \<and> parseValue_reading_parseArray_reading_parseObject_reading_dom
        (Inr (Inr (beyond, fc, source, cur, obj)))
   \<and> cur \<le> snd (parseValue_reading beyond fc source cur)
   \<and> cur \<le> snd (parseArray_reading beyond fc source cur vals)
   \<and> cur \<le> snd (parseObject_reading beyond fc source cur obj)
   \<and> (\<forall>v. fst (parseValue_reading beyond fc source cur) = Ok v \<longrightarrow>
         cur < snd (parseValue_reading beyond fc source cur))
   \<and> (cur \<le> length source \<longrightarrow>
        snd (parseValue_reading beyond fc source cur) \<le> length source
        \<and> snd (parseArray_reading beyond fc source cur vals) \<le> length source
        \<and> snd (parseObject_reading beyond fc source cur obj) \<le> length source)
   \<and> ((\<exists>v. fst (parseValue_reading (\<lambda>str pos. Some (byte str pos)) fc source cur) = Ok v)
        \<or> (\<exists>e. fst (parseValue_reading (\<lambda>str pos. Some (byte str pos)) fc source cur) = Err e))
   \<and> ((\<exists>v. fst (parseArray_reading (\<lambda>str pos. Some (byte str pos)) fc source cur vals) = Ok v)
        \<or> (\<exists>e. fst (parseArray_reading (\<lambda>str pos. Some (byte str pos)) fc source cur vals)
              = Err e))
   \<and> ((\<exists>v. fst (parseObject_reading (\<lambda>str pos. Some (byte str pos)) fc source cur obj) = Ok v)
        \<or> (\<exists>e. fst (parseObject_reading (\<lambda>str pos. Some (byte str pos)) fc source cur obj)
              = Err e))"
proof -
  note s = parse_progress_dom(1)[of fc source cur, OF parse_dom_total]
    parse_progress_dom(2)[of fc source cur vals, OF parse_dom_total]
    parse_progress_dom(3)[of fc source cur obj, OF parse_dom_total]
  note r = parse_reading_progress_dom(1)[of beyond fc source cur, OF parse_reading_dom_total]
    parse_reading_progress_dom(2)[of beyond fc source cur vals, OF parse_reading_dom_total]
    parse_reading_progress_dom(3)[of beyond fc source cur obj, OF parse_reading_dom_total]
  have strict: "\<forall>f. fst (parseValue fc source cur) = Fault f \<longrightarrow> f = OutOfRange"
    using parse_reading_fault(1)[of "\<lambda>str pos. None" fc source cur]
    by (simp add: parse_reading_None)
  have v: "(\<exists>v. fst (parseValue_reading (\<lambda>str pos. Some (byte str pos)) fc source cur) = Ok v)
      \<or> (\<exists>e. fst (parseValue_reading (\<lambda>str pos. Some (byte str pos)) fc source cur) = Err e)"
    by (rule Ok_or_Err) (use parse_reading_fault(1) in fastforce)
  have a: "(\<exists>v. fst (parseArray_reading (\<lambda>str pos. Some (byte str pos)) fc source cur vals) = Ok v)
      \<or> (\<exists>e. fst (parseArray_reading (\<lambda>str pos. Some (byte str pos)) fc source cur vals) = Err e)"
    by (rule Ok_or_Err) (use parse_reading_fault(2) in fastforce)
  have ob: "(\<exists>v. fst (parseObject_reading (\<lambda>str pos. Some (byte str pos)) fc source cur obj) = Ok v)
      \<or> (\<exists>e. fst (parseObject_reading (\<lambda>str pos. Some (byte str pos)) fc source cur obj) = Err e)"
    by (rule Ok_or_Err) (use parse_reading_fault(3) in fastforce)
  show ?thesis
    apply (intro conjI)
    using s r strict v a ob
    apply (simp_all add: parse_dom_total parse_reading_dom_total parse_reading_None)
    done
qed

text \<open>
  On the string token with the escape \<open>n\<close>, the parser that goes on returns what the
  byte read decides: the string with a newline, or one of the two errors of lines 27
  and 42.
\<close>

theorem parse_terminates_witness:
  "fst (parseValue from_chars_model ''[1, 2]'' 0) = Ok (Array [Number (Finite 1), Number (Finite 2)])
   \<and> 0 < snd (parseValue from_chars_model ''[1, 2]'' 0)
   \<and> snd (parseValue from_chars_model ''[1, 2]'' 0) \<le> length ''[1, 2]''
   \<and> parse_reading (\<lambda>str pos. Some (CHR ''n'')) from_chars_model [quote, backslash, CHR ''n'', quote]
       = Ok (String [newline])
   \<and> parse_reading (\<lambda>str pos. Some (CHR ''u'')) from_chars_model [quote, backslash, CHR ''n'', quote]
       = Err \<lparr>cursor = 2, message = ''Unicode escapes are not implemented yet''\<rparr>
   \<and> parse_reading (\<lambda>str pos. Some (CHR 0x00)) from_chars_model [quote, backslash, CHR ''n'', quote]
       = Err \<lparr>cursor = 2, message = ''Invalid character escape''\<rparr>
   \<and> 0 < snd (parseValue_reading (\<lambda>str pos. Some (CHR ''n'')) from_chars_model
               [quote, backslash, CHR ''n'', quote] 0)"
proof -
  have v: "fst (parseValue from_chars_model ''[1, 2]'' 0)
      = Ok (Array [Number (Finite 1), Number (Finite 2)])"
    by code_simp
  have n: "parse_reading (\<lambda>str pos. Some (CHR ''n'')) from_chars_model [quote, backslash, CHR ''n'', quote]
       = Ok (String [newline])"
    by code_simp
  have u: "parse_reading (\<lambda>str pos. Some (CHR ''u'')) from_chars_model [quote, backslash, CHR ''n'', quote]
       = Err \<lparr>cursor = 2, message = ''Unicode escapes are not implemented yet''\<rparr>"
    by code_simp
  have z: "parse_reading (\<lambda>str pos. Some (CHR 0x00)) from_chars_model [quote, backslash, CHR ''n'', quote]
       = Err \<lparr>cursor = 2, message = ''Invalid character escape''\<rparr>"
    by code_simp
  note t1 = parse_terminates[of from_chars_model "''[1, 2]''" 0 "[]" "[]" "\<lambda>str pos. None"]
  note t2 = parse_terminates[of from_chars_model "[quote, backslash, CHR ''n'', quote]" 0
      "[]" "[]" "\<lambda>str pos. Some (CHR ''n'')"]
  have a: "0 < snd (parseValue from_chars_model ''[1, 2]'' 0)
      \<and> snd (parseValue from_chars_model ''[1, 2]'' 0) \<le> length ''[1, 2]''"
    using t1 v by simp
  have b: "0 < snd (parseValue_reading (\<lambda>str pos. Some (CHR ''n'')) from_chars_model
               [quote, backslash, CHR ''n'', quote] 0)"
    using t2 n by (simp add: parse_reading_def)
  from v a b n u z show ?thesis by simp
qed

subsection \<open>Non-finite number tokens\<close>

text \<open>
  The conversion of the standard on the tokens \<open>inf\<close>, \<open>infinity\<close> and \<open>nan\<close>, in
  any mix of upper and lower case and with an optional minus sign: it consumes the whole
  token and gives the infinity or the NaN of that sign.
\<close>

lemma to_lower_minus: "to_lower c \<in> set ''infinityna'' \<Longrightarrow> c \<noteq> CHR ''-''"
  by (auto simp: to_lower_def)

lemma from_chars_model_inf_nan:
  assumes "map to_lower body \<in> {''inf'', ''infinity'', ''nan''}"
  shows "from_chars_model ((if neg then ''-'' else []) @ body)
         = (length ((if neg then ''-'' else []) @ body),
            Some (if map to_lower body = ''nan'' then NaN neg else Infinity neg))"
proof -
  define tok where "tok = (if neg then ''-'' else []) @ body"
  have ne: "body \<noteq> []" using assms by auto
  have "to_lower (hd body) \<in> set ''infinityna''"
    using assms ne by (cases body) auto
  then have hd: "hd body \<noteq> CHR ''-''" by (rule to_lower_minus)
  have neg: "(tok \<noteq> [] \<and> hd tok = CHR ''-'') = neg"
    using ne hd by (simp add: tok_def)
  have r: "drop (if neg then 1 else 0) tok = body" by (simp add: tok_def)
  have len: "length tok = (if neg then 1 else 0) + length body" by (simp add: tok_def)
  have fc: "from_chars_model tok =
     (if map to_lower (take 8 body) = ''infinity'' then ((if neg then 1 else 0) + 8, Some (Infinity neg))
      else if map to_lower (take 3 body) = ''inf'' then ((if neg then 1 else 0) + 3, Some (Infinity neg))
      else if map to_lower (take 3 body) = ''nan'' then ((if neg then 1 else 0) + 3, Some (NaN neg))
      else from_chars_model tok)"
    unfolding from_chars_model_def[of tok] Let_def neg r by simp
  consider (inf) "map to_lower body = ''inf''" | (infinity) "map to_lower body = ''infinity''"
    | (nan) "map to_lower body = ''nan''"
    using assms by auto
  then have "from_chars_model tok
      = (length tok, Some (if map to_lower body = ''nan'' then NaN neg else Infinity neg))"
  proof cases
    case inf
    then have "length (map to_lower body) = 3" by simp
    then have l: "length body = 3" by simp
    show ?thesis by (subst fc) (simp add: l len inf)
  next
    case infinity
    then have "length (map to_lower body) = 8" by simp
    then have l: "length body = 8" by simp
    show ?thesis by (subst fc) (simp add: l len infinity)
  next
    case nan
    then have "length (map to_lower body) = 3" by simp
    then have l: "length body = 3" by simp
    show ?thesis by (subst fc) (simp add: l len nan)
  qed
  then show ?thesis by (simp add: tok_def)
qed

lemma inf_nan_token:
  assumes "map to_lower body \<in> {''inf'', ''infinity'', ''nan''}"
    and "tok = (if neg then ''-'' else []) @ body"
  shows "tok \<noteq> []" "set tok \<subseteq> set valueChars"
    "tok \<noteq> ''null''" "tok \<noteq> ''true''" "tok \<noteq> ''false''"
proof -
  have "set (map to_lower body) \<subseteq> set ''infinityna''"
    using assms(1) by auto
  then have body: "set body \<subseteq> set valueChars"
    using to_lower_in_valueChars by auto
  have "CHR ''-'' \<in> set valueChars" by (simp add: valueChars_def)
  with body show "set tok \<subseteq> set valueChars"
    using assms(2) by auto
  show "tok \<noteq> []" using assms(1,2) by auto
  have low: "map to_lower ''null'' = ''null''" "map to_lower ''true'' = ''true''"
    "map to_lower ''false'' = ''false''"
    by code_simp+
  have "body \<noteq> ''null''" "body \<noteq> ''true''" "body \<noteq> ''false''"
    using assms(1) low by auto
  moreover have "body \<noteq> []" using assms(1) by auto
  ultimately show "tok \<noteq> ''null''" "tok \<noteq> ''true''" "tok \<noteq> ''false''"
    using assms(2) by (cases neg; simp)+
qed

text \<open>
  C10: a token \<open>inf\<close>, \<open>infinity\<close> or \<open>nan\<close>, in any mix of upper and lower case
  and with an optional minus sign in front, standing anywhere in a buffer and followed by
  its end or by a character outside the scanned set, is captured whole by the scan, is
  none of the three literals, and is handed to \<^verbatim>\<open>std::from_chars\<close>. With the
  conversion of the standard the value parsed is the Number that is the infinity, or the
  NaN, of the sign written; with any conversion that accepts the whole token it is the
  Number that the conversion gives.
\<close>

theorem inf_nan_tokens_parse_as_numbers:
  assumes "map to_lower body \<in> {''inf'', ''infinity'', ''nan''}"
    and "tok = (if neg then ''-'' else []) @ body"
    and "post = [] \<or> hd post \<notin> set valueChars"
  shows "valueToken (pre @ tok @ post) (length pre) = tok
         \<and> parseValue from_chars_model (pre @ tok @ post) (length pre)
             = (Ok (Number (if map to_lower body = ''nan'' then NaN neg else Infinity neg)),
                length pre + length tok)
         \<and> parse from_chars_model (tok @ post)
             = Ok (Number (if map to_lower body = ''nan'' then NaN neg else Infinity neg))
         \<and> (\<forall>fc v. fc tok = (length tok, Some v) \<longrightarrow>
               parseValue fc (pre @ tok @ post) (length pre) = (Ok (Number v), length pre + length tok))"
proof -
  note t = inf_nan_token[OF assms(1,2)]
  have vt: "valueToken (pre @ tok @ post) (length pre) = tok"
    by (rule valueToken_segment[OF t(2) assms(3)])
  have fcm: "from_chars_model tok
      = (length tok, Some (if map to_lower body = ''nan'' then NaN neg else Infinity neg))"
    unfolding assms(2) by (rule from_chars_model_inf_nan[OF assms(1)])
  note m = parseValue_number_text[where fc = from_chars_model, OF t(1,2) assms(3) t(3,4,5) fcm]
  have p: "parse from_chars_model (tok @ post)
      = Ok (Number (if map to_lower body = ''nan'' then NaN neg else Infinity neg))"
    using m[of "[]"] by (simp add: parse_def)
  have g: "\<forall>fc v. fc tok = (length tok, Some v) \<longrightarrow>
      parseValue fc (pre @ tok @ post) (length pre) = (Ok (Number v), length pre + length tok)"
    by (intro allI impI) (rule parseValue_number_text[OF t(1,2) assms(3) t(3,4,5)])
  show ?thesis
    by (intro conjI) (rule vt, rule m, rule p, rule g)
qed

text \<open>
  At the start of a buffer, in front of a separator, and as the element of an array.
\<close>

theorem inf_nan_tokens_parse_as_numbers_witness:
  "parse from_chars_model ''-inf'' = Ok (Number (Infinity True))
   \<and> parse from_chars_model ''NaN'' = Ok (Number (NaN False))
   \<and> parse from_chars_model ''-Infinity, 1'' = Ok (Number (Infinity True))
   \<and> valueToken ''[inf]'' 1 = ''inf''
   \<and> parseValue from_chars_model ''[inf]'' 1 = (Ok (Number (Infinity False)), 4)
   \<and> parse from_chars_model ''[inf]'' = Ok (Array [Number (Infinity False)])"
proof -
  have h: "map to_lower ''inf'' \<in> {''inf'', ''infinity'', ''nan''}"
    "map to_lower ''NaN'' \<in> {''inf'', ''infinity'', ''nan''}"
    "map to_lower ''Infinity'' \<in> {''inf'', ''infinity'', ''nan''}"
    by code_simp+
  have e: "(if map to_lower ''inf'' = ''nan'' then NaN b else Infinity b) = Infinity b"
    "(if map to_lower ''NaN'' = ''nan'' then NaN b else Infinity b) = NaN b"
    "(if map to_lower ''Infinity'' = ''nan'' then NaN b else Infinity b) = Infinity b" for b
    by code_simp+
  have d: "[] = [] \<or> hd [] \<notin> set valueChars"
    "'', 1'' = [] \<or> hd '', 1'' \<notin> set valueChars"
    "'']'' = [] \<or> hd '']'' \<notin> set valueChars"
    by (simp_all add: valueChars_def)
  have t: "''-inf'' = (if True then ''-'' else []) @ ''inf''"
    "''NaN'' = (if False then ''-'' else []) @ ''NaN''"
    "''-Infinity'' = (if True then ''-'' else []) @ ''Infinity''"
    "''inf'' = (if False then ''-'' else []) @ ''inf''"
    by simp_all
  note r1 = inf_nan_tokens_parse_as_numbers[OF h(1) t(1) d(1), of "[]", unfolded e]
  note r2 = inf_nan_tokens_parse_as_numbers[OF h(2) t(2) d(1), of "[]", unfolded e]
  note r3 = inf_nan_tokens_parse_as_numbers[OF h(3) t(3) d(2), of "[]", unfolded e]
  note r4 = inf_nan_tokens_parse_as_numbers[OF h(1) t(4) d(3), of "''[''", unfolded e]
  have 1: "parse from_chars_model ''-inf'' = Ok (Number (Infinity True))"
    using r1[THEN conjunct2, THEN conjunct2, THEN conjunct1] by simp
  have 2: "parse from_chars_model ''NaN'' = Ok (Number (NaN False))"
    using r2[THEN conjunct2, THEN conjunct2, THEN conjunct1] by simp
  have 3: "parse from_chars_model ''-Infinity, 1'' = Ok (Number (Infinity True))"
    using r3[THEN conjunct2, THEN conjunct2, THEN conjunct1] by simp
  have 4: "valueToken ''[inf]'' 1 = ''inf''"
    using r4[THEN conjunct1] by simp
  have 5: "parseValue from_chars_model ''[inf]'' 1 = (Ok (Number (Infinity False)), 4)"
    using r4[THEN conjunct2, THEN conjunct1] by simp
  have 6: "parse from_chars_model ''[inf]'' = Ok (Array [Number (Infinity False)])"
    by code_simp
  from 1 2 3 4 5 6 show ?thesis by simp
qed

subsection \<open>Bytes after the value\<close>

text \<open>
  A parse that returns a value before the end of the buffer has read nothing beyond the
  cursor it returns, so the same parse runs on every extension of the buffer.
\<close>

lemma parseValue_ge: "c \<le> snd (parseValue fc s c)"
  using parse_progress_dom(1)[of fc s c, OF parse_dom_total] by simp

lemma parseArray_ge: "c \<le> snd (parseArray fc s c vals)"
  using parse_progress_dom(2)[of fc s c vals, OF parse_dom_total] by simp

lemma parseObject_ge: "c \<le> snd (parseObject fc s c obj)"
  using parse_progress_dom(3)[of fc s c obj, OF parse_dom_total] by simp

lemma skipWhitespace_append:
  "skipWhitespace s c < length s \<Longrightarrow> skipWhitespace (s @ t) c = skipWhitespace s c"
proof (induction s c rule: skipWhitespace.induct)
  case (1 s c)
  show ?case
  proof (cases "c < length s \<and> isWhitespace (s ! c)")
    case True
    then have eq: "skipWhitespace s c = skipWhitespace s (c + 1)"
      by (subst skipWhitespace.simps) simp
    have "skipWhitespace (s @ t) c = skipWhitespace (s @ t) (c + 1)"
      using True by (subst skipWhitespace.simps) (simp add: nth_append)
    with "1.IH"[OF True] "1.prems" eq show ?thesis by simp
  next
    case False
    then have eq: "skipWhitespace s c = c"
      by (subst skipWhitespace.simps) auto
    with "1.prems" False have "c < length s" "\<not> isWhitespace (s ! c)" by auto
    then have "skipWhitespace (s @ t) c = c"
      by (subst skipWhitespace.simps) (simp add: nth_append)
    with eq show ?thesis by simp
  qed
qed

lemma skipSeparator_append:
  assumes "snd (skipSeparator s c) < length s"
  shows "skipSeparator (s @ t) c = skipSeparator s c"
proof -
  define cur where "cur = skipWhitespace s c"
  have "cur \<le> snd (skipSeparator s c)"
    using skipWhitespace_ge[of "cur + 1" s]
    by (auto simp: skipSeparator_def Let_def cur_def[symmetric])
  with assms have lt: "cur < length s" by simp
  then have sk: "skipWhitespace (s @ t) c = cur"
    unfolding cur_def by (rule skipWhitespace_append)
  show ?thesis
  proof (cases "s ! cur = CHR '',''")
    case True
    with assms lt have "skipWhitespace s (cur + 1) < length s"
      by (simp add: skipSeparator_def Let_def cur_def[symmetric])
    then have "skipWhitespace (s @ t) (cur + 1) = skipWhitespace s (cur + 1)"
      by (rule skipWhitespace_append)
    then show ?thesis
      using True lt by (simp add: skipSeparator_def Let_def sk cur_def[symmetric] nth_append)
  next
    case False
    then show ?thesis
      using lt by (simp add: skipSeparator_def Let_def sk cur_def[symmetric] nth_append)
  qed
qed

lemma parseString_loop_append:
  "parseString_loop s c str = (Ok r, c') \<Longrightarrow> parseString_loop (s @ t) c str = (Ok r, c')"
proof (induction s c str rule: parseString_loop.induct)
  case (1 s c str)
  from "1.prems" have lt: "c < length s"
    by (subst (asm) parseString_loop.simps) (auto split: if_splits)
  show ?case
  proof (cases "s ! c = backslash")
    case True
    from "1.prems" True lt have lt1: "c + 1 < length s"
      by (subst (asm) parseString_loop.simps) (auto simp: Let_def split: if_splits)
    from "1.prems" True lt lt1 obtain ch e where
      ch: "string_at str (c + 1) = Some ch" "ch \<noteq> CHR ''u''" "map_of escapes ch = Some e"
      and rec: "parseString_loop s (c + 1 + 1) (str @ e) = (Ok r, c')"
      by (subst (asm) parseString_loop.simps)
         (auto simp: Let_def split: if_splits option.splits)
    have "parseString_loop (s @ t) (c + 1 + 1) (str @ e) = (Ok r, c')"
      using "1.IH"(1)[OF lt True refl _ ch(1) ch(2) ch(3) rec] lt1 by simp
    then show ?thesis
      using True lt lt1 ch
      by (subst parseString_loop.simps) (simp add: Let_def nth_append)
  next
    case False
    show ?thesis
    proof (cases "s ! c = quote")
      case True
      with "1.prems" False lt have "r = str" "c' = c + 1"
        by (subst (asm) parseString_loop.simps, simp)+
      then show ?thesis
        using True False lt by (subst parseString_loop.simps) (simp add: nth_append)
    next
      case nq: False
      from "1.prems" False nq lt
      have rec: "parseString_loop s (c + 1) (str @ [s ! c]) = (Ok r, c')"
        by (subst (asm) parseString_loop.simps) simp
      have "parseString_loop (s @ t) (c + 1) (str @ [s ! c]) = (Ok r, c')"
        using "1.IH"(2)[OF lt False nq rec] .
      then show ?thesis
        using False nq lt by (subst parseString_loop.simps) (simp add: nth_append)
    qed
  qed
qed

lemma parseString_append:
  "parseString s c = (Ok r, c') \<Longrightarrow> parseString (s @ t) c = (Ok r, c')"
  by (auto simp: parseString_def nth_append split: if_splits intro: parseString_loop_append)

lemma find_first_not_of_Some:
  "find_first_not_of s chars c = Some e \<Longrightarrow> c \<le> e \<and> e < length s"
proof (induction s chars c rule: find_first_not_of.induct)
  case (1 s chars pos)
  from "1.prems" have lt: "pos < length s"
    by (subst (asm) find_first_not_of.simps) (auto split: if_splits)
  show ?case
  proof (cases "s ! pos \<in> set chars")
    case True
    with "1.prems" lt have "find_first_not_of s chars (pos + 1) = Some e"
      by (subst (asm) find_first_not_of.simps) simp
    from "1.IH"[OF lt True this] show ?thesis by simp
  next
    case False
    with "1.prems" lt have "e = pos"
      by (subst (asm) find_first_not_of.simps) simp
    with lt show ?thesis by simp
  qed
qed

lemma find_first_not_of_append:
  "find_first_not_of s chars c = Some e \<Longrightarrow> find_first_not_of (s @ t) chars c = Some e"
proof (induction s chars c rule: find_first_not_of.induct)
  case (1 s chars pos)
  from "1.prems" have lt: "pos < length s"
    by (subst (asm) find_first_not_of.simps) (auto split: if_splits)
  show ?case
  proof (cases "s ! pos \<in> set chars")
    case True
    with "1.prems" lt have "find_first_not_of s chars (pos + 1) = Some e"
      by (subst (asm) find_first_not_of.simps) simp
    from "1.IH"[OF lt True this] show ?thesis
      using True lt by (subst find_first_not_of.simps) (simp add: nth_append)
  next
    case False
    with "1.prems" lt have "e = pos"
      by (subst (asm) find_first_not_of.simps) simp
    then show ?thesis
      using False lt by (subst find_first_not_of.simps) (simp add: nth_append)
  qed
qed

lemma valueToken_append:
  assumes "c + length (valueToken s c) < length s"
  shows "valueToken (s @ t) c = valueToken s c"
proof (cases "find_first_not_of s valueChars c")
  case None
  with assms show ?thesis
    by (simp add: valueToken_def substr_def)
next
  case (Some e)
  from find_first_not_of_Some[OF Some] find_first_not_of_append[OF Some, of t]
  show ?thesis
    by (simp add: valueToken_def substr_def Some)
qed

lemma parseLiteral_append:
  assumes "parseLiteral fc s c = (Ok v, c')" and "c' < length s"
  shows "parseLiteral fc (s @ t) c = (Ok v, c')"
proof -
  from assms(1) have "c' = c + length (valueToken s c)"
    by (auto simp: parseLiteral_def Let_def split: if_splits option.splits)
  with assms(2) have "valueToken (s @ t) c = valueToken s c"
    by (simp add: valueToken_append)
  with assms(1) show ?thesis
    by (simp add: parseLiteral_def)
qed

lemma parse_append:
  "parseValue fc s c = (Ok v, c') \<Longrightarrow> c' < length s
     \<Longrightarrow> parseValue fc (s @ t) c = (Ok v, c')"
  "parseArray fc s c vals = (Ok v, c') \<Longrightarrow> c' < length s
     \<Longrightarrow> parseArray fc (s @ t) c vals = (Ok v, c')"
  "parseObject fc s c obj = (Ok v, c') \<Longrightarrow> c' < length s
     \<Longrightarrow> parseObject fc (s @ t) c obj = (Ok v, c')"
proof (induction fc s c and fc s c vals and fc s c obj arbitrary: v c' and v c' and v c'
    rule: parseValue_parseArray_parseObject.induct)
  case (1 fc s cur0)
  define cur where "cur = skipWhitespace s cur0"
  from "1.prems"(1) have lt: "cur < length s"
    by (subst (asm) parseValue.simps) (auto simp: Let_def cur_def split: if_splits)
  then have sk: "skipWhitespace (s @ t) cur0 = cur"
    unfolding cur_def by (rule skipWhitespace_append)
  have nth: "(s @ t) ! cur = s ! cur" using lt by (simp add: nth_append)
  have nle: "\<not> length s \<le> cur" using lt by simp
  consider (obj) "s ! cur = CHR ''{''"
    | (arr) "s ! cur \<noteq> CHR ''{''" "s ! cur = CHR ''[''"
    | (str) "s ! cur \<noteq> CHR ''{''" "s ! cur \<noteq> CHR ''[''" "s ! cur = quote"
    | (lit) "s ! cur \<noteq> CHR ''{''" "s ! cur \<noteq> CHR ''[''" "s ! cur \<noteq> quote"
    by blast
  then show ?case
  proof cases
    case obj
    with "1.prems"(1) lt have "parseObject fc s (cur + 1) [] = (Ok v, c')"
      by (subst (asm) parseValue.simps) (simp add: Let_def cur_def[symmetric])
    from "1.IH"(1)[OF cur_def nle obj this "1.prems"(2)] show ?thesis
      using lt obj by (subst parseValue.simps) (simp add: Let_def sk nth)
  next
    case arr
    with "1.prems"(1) lt have "parseArray fc s (cur + 1) [] = (Ok v, c')"
      by (subst (asm) parseValue.simps) (simp add: Let_def cur_def[symmetric])
    from "1.IH"(2)[OF cur_def nle arr this "1.prems"(2)] show ?thesis
      using lt arr by (subst parseValue.simps) (simp add: Let_def sk nth)
  next
    case str
    with "1.prems"(1) lt obtain x where x: "parseString s cur = (Ok x, c')" "v = String x"
      by (subst (asm) parseValue.simps)
         (auto simp: Let_def cur_def[symmetric] split: prod.splits Result.splits)
    from parseString_append[OF x(1), of t] show ?thesis
      using lt str x(2) by (subst parseValue.simps) (simp add: Let_def sk nth)
  next
    case lit
    with "1.prems"(1) lt have "parseLiteral fc s cur = (Ok v, c')"
      by (subst (asm) parseValue.simps) (simp add: Let_def cur_def[symmetric])
    from parseLiteral_append[OF this "1.prems"(2), of t] show ?thesis
      using lt lit by (subst parseValue.simps) (simp add: Let_def sk nth)
  qed
next
  case (2 fc s cur0 vals)
  define cur where "cur = skipWhitespace s cur0"
  have ge: "cur0 \<le> cur" unfolding cur_def by (rule skipWhitespace_ge)
  from "2.prems" have lt0: "cur0 < length s"
    by (subst (asm) parseArray.simps) (auto split: if_splits)
  from "2.prems"(1) lt0 have lt: "cur < length s"
    by (subst (asm) parseArray.simps) (auto simp: Let_def cur_def split: if_splits)
  then have sk: "skipWhitespace (s @ t) cur0 = cur"
    unfolding cur_def by (rule skipWhitespace_append)
  have nth: "(s @ t) ! cur = s ! cur" using lt by (simp add: nth_append)
  have nle: "\<not> length s \<le> cur" using lt by simp
  show ?case
  proof (cases "s ! cur = CHR '']''")
    case True
    with "2.prems"(1) lt0 lt have "v = Array vals" "c' = cur + 1"
      by (subst (asm) parseArray.simps, simp add: Let_def cur_def[symmetric])+
    then show ?thesis
      using lt0 lt True by (subst parseArray.simps) (simp add: Let_def sk nth)
  next
    case False
    obtain r cur1 where pv: "parseValue fc s cur = (r, cur1)" by force
    obtain sep cur2 where ss: "skipSeparator s cur1 = (sep, cur2)" by force
    from "2.prems"(1) lt0 lt False pv obtain x where r: "r = Ok x"
      by (subst (asm) parseArray.simps)
         (auto simp: Let_def cur_def[symmetric] split: Result.splits)
    from "2.prems"(1) lt0 lt False
    have body: "(if cur2 < length s \<and> s ! cur2 = CHR '']'' then (Ok (Array (vals @ [x])), cur2 + 1)
         else if \<not> sep then (Err \<lparr>cursor = cur2, message = ''Expected separator''\<rparr>, cur2)
         else parseArray fc s cur2 (vals @ [x])) = (Ok v, c')"
      by (subst (asm) parseArray.simps) (simp add: Let_def cur_def[symmetric] pv r ss)
    have lt2: "cur2 < length s"
    proof (cases "cur2 < length s \<and> s ! cur2 = CHR '']''")
      case True
      then show ?thesis by simp
    next
      case nb: False
      with body have "sep" "parseArray fc s cur2 (vals @ [x]) = (Ok v, c')"
        by (auto split: if_splits)
      with parseArray_ge[of cur2 fc s "vals @ [x]"] "2.prems"(2) show ?thesis by simp
    qed
    have ge2: "cur1 \<le> cur2" using skipSeparator_ge[of cur1 s] ss by simp
    with lt2 have lt1: "cur1 < length s" by simp
    have pv': "parseValue fc (s @ t) cur = (Ok x, cur1)"
      using "2.IH"(1)[OF lt0 cur_def nle False _ lt1] pv r by simp
    have ss': "skipSeparator (s @ t) cur1 = (sep, cur2)"
      using skipSeparator_append[of s cur1 t] ss lt2 by simp
    have nth2: "(s @ t) ! cur2 = s ! cur2" using lt2 by (simp add: nth_append)
    show ?thesis
    proof (cases "cur2 < length s \<and> s ! cur2 = CHR '']''")
      case True
      with body have "v = Array (vals @ [x])" "c' = cur2 + 1" by auto
      then show ?thesis
        using lt0 lt False True
        by (subst parseArray.simps) (simp add: Let_def sk nth pv' ss' nth2)
    next
      case nb: False
      with body have sep: "sep" and rec: "parseArray fc s cur2 (vals @ [x]) = (Ok v, c')"
        by (auto split: if_splits)
      have nn: "\<not> \<not> sep" using sep by simp
      have "parseArray fc (s @ t) cur2 (vals @ [x]) = (Ok v, c')"
        using "2.IH"(2)[OF lt0 cur_def nle False pv[symmetric] r ss[symmetric] nb nn rec "2.prems"(2)] .
      then show ?thesis
        using lt0 lt False nb sep lt2
        by (subst parseArray.simps) (simp add: Let_def sk nth pv' ss' nth2)
    qed
  qed
next
  case (3 fc s cur0 obj)
  define cur where "cur = skipWhitespace s cur0"
  from "3.prems" have lt0: "cur0 < length s"
    by (subst (asm) parseObject.simps) (auto split: if_splits)
  from "3.prems"(1) lt0 have lt: "cur < length s"
    by (subst (asm) parseObject.simps) (auto simp: Let_def cur_def split: if_splits)
  then have sk: "skipWhitespace (s @ t) cur0 = cur"
    unfolding cur_def by (rule skipWhitespace_append)
  have nth: "(s @ t) ! cur = s ! cur" using lt by (simp add: nth_append)
  have nle: "\<not> length s \<le> cur" using lt by simp
  show ?case
  proof (cases "s ! cur = CHR ''}''")
    case True
    with "3.prems"(1) lt0 lt have "v = Object obj" "c' = cur + 1"
      by (subst (asm) parseObject.simps, simp add: Let_def cur_def[symmetric])+
    then show ?thesis
      using lt0 lt True by (subst parseObject.simps) (simp add: Let_def sk nth)
  next
    case False
    from "3.prems"(1) lt0 lt False have q: "s ! cur = quote"
      by (subst (asm) parseObject.simps) (auto simp: Let_def cur_def[symmetric] split: if_splits)
    then have nq: "\<not> s ! cur \<noteq> quote" by simp
    obtain rs cur1 where ps: "parseString s cur = (rs, cur1)" by force
    from "3.prems"(1) lt0 lt False q ps obtain key where rs: "rs = Ok key"
      by (subst (asm) parseObject.simps)
         (auto simp: Let_def cur_def[symmetric] split: Result.splits)
    define cur2 where "cur2 = skipWhitespace s cur1"
    from "3.prems"(1) lt0 lt False q ps rs
    have c2: "\<not> (length s \<le> cur2 \<or> s ! cur2 \<noteq> CHR '':'')"
      by (subst (asm) parseObject.simps)
         (auto simp: Let_def cur_def[symmetric] cur2_def[symmetric] split: if_splits)
    then have lt2: "cur2 < length s" and colon: "s ! cur2 = CHR '':''" by auto
    define cur3 where "cur3 = skipWhitespace s (cur2 + 1)"
    have cur3': "skipWhitespace s (Suc cur2) = cur3" by (simp add: cur3_def)
    from "3.prems"(1) lt0 lt False q ps rs lt2 colon
    have c3: "\<not> length s \<le> cur3"
      by (subst (asm) parseObject.simps)
         (auto simp: Let_def cur_def[symmetric] cur2_def[symmetric] cur3' split: if_splits)
    then have lt3: "cur3 < length s" by simp
    obtain r cur4 where pv: "parseValue fc s cur3 = (r, cur4)" by force
    obtain sep cur5 where ss: "skipSeparator s cur4 = (sep, cur5)" by force
    from "3.prems"(1) lt0 lt False q ps rs lt2 colon lt3 pv obtain x where r: "r = Ok x"
      by (subst (asm) parseObject.simps)
         (auto simp: Let_def cur_def[symmetric] cur2_def[symmetric] cur3' split: Result.splits)
    from "3.prems"(1) lt0 lt False q lt2 colon lt3
    have body: "(if cur5 < length s \<and> s ! cur5 = CHR ''}''
         then (Ok (Object (emplace obj key x)), cur5 + 1)
         else if \<not> sep then (Err \<lparr>cursor = cur5, message = ''Expected separator''\<rparr>, cur5)
         else parseObject fc s cur5 (emplace obj key x)) = (Ok v, c')"
      by (subst (asm) parseObject.simps)
         (simp add: Let_def cur_def[symmetric] ps rs cur2_def[symmetric] cur3' pv r ss)
    have lt5: "cur5 < length s"
    proof (cases "cur5 < length s \<and> s ! cur5 = CHR ''}''")
      case True
      then show ?thesis by simp
    next
      case nb: False
      with body have "sep" "parseObject fc s cur5 (emplace obj key x) = (Ok v, c')"
        by (auto split: if_splits)
      with parseObject_ge[of cur5 fc s "emplace obj key x"] "3.prems"(2) show ?thesis by simp
    qed
    have ge5: "cur4 \<le> cur5" using skipSeparator_ge[of cur4 s] ss by simp
    with lt5 have lt4: "cur4 < length s" by simp
    have ps': "parseString (s @ t) cur = (Ok key, cur1)"
      using parseString_append[of s cur key cur1 t] ps rs by simp
    have sk2: "skipWhitespace (s @ t) cur1 = cur2"
      unfolding cur2_def using lt2 cur2_def by (intro skipWhitespace_append) simp
    have sk3: "skipWhitespace (s @ t) (Suc cur2) = cur3"
      using skipWhitespace_append[of s "cur2 + 1" t] lt3 by (simp add: cur3_def)
    have nth2: "(s @ t) ! cur2 = s ! cur2" using lt2 by (simp add: nth_append)
    have nth5: "(s @ t) ! cur5 = s ! cur5" using lt5 by (simp add: nth_append)
    have pv': "parseValue fc (s @ t) cur3 = (Ok x, cur4)"
      using "3.IH"(1)[OF lt0 cur_def nle False nq ps[symmetric] rs cur2_def c2 cur3_def c3 _ lt4]
        pv r by simp
    have ss': "skipSeparator (s @ t) cur4 = (sep, cur5)"
      using skipSeparator_append[of s cur4 t] ss lt5 by simp
    show ?thesis
    proof (cases "cur5 < length s \<and> s ! cur5 = CHR ''}''")
      case True
      with body have "v = Object (emplace obj key x)" "c' = cur5 + 1" by auto
      then show ?thesis
        using lt0 lt False q lt2 colon lt3 True
        by (subst parseObject.simps) (simp add: Let_def sk nth ps' sk2 nth2 sk3 pv' ss' nth5)
    next
      case nb: False
      with body have sep: "sep"
        and rec: "parseObject fc s cur5 (emplace obj key x) = (Ok v, c')"
        by (auto split: if_splits)
      have nn: "\<not> \<not> sep" using sep by simp
      have "parseObject fc (s @ t) cur5 (emplace obj key x) = (Ok v, c')"
        using "3.IH"(2)[OF lt0 cur_def nle False nq ps[symmetric] rs cur2_def c2 cur3_def c3
            pv[symmetric] r ss[symmetric] nb nn rec "3.prems"(2)] .
      then show ?thesis
        using lt0 lt False q lt2 colon lt3 nb sep lt5
        by (subst parseObject.simps) (simp add: Let_def sk nth ps' sk2 nth2 sk3 pv' ss' nth5)
    qed
  qed
qed

text \<open>
  The parser on the text of a value in context: a well-formed text, wherever it stands in
  a buffer, is parsed to its value with the cursor left right behind it, provided that a
  literal or a number is followed by the end of the buffer or by a character that ends
  the token. The two loops do the same on the elements and the members that remain,
  followed by the closing bracket.
\<close>

lemma whitespace_ball: "whitespace ws \<Longrightarrow> \<forall>c\<in>set ws. isWhitespace c"
  by (simp add: whitespace_def list_all_iff)

lemma literal_valueChars:
  "set ''null'' \<subseteq> set valueChars" "set ''true'' \<subseteq> set valueChars"
  "set ''false'' \<subseteq> set valueChars"
  by (simp_all add: valueChars_def)

lemma render_start:
  assumes "well_formed fc t"
  shows "render t \<noteq> [] \<and>
         (if self_delimiting t then hd (render t) \<in> {quote, CHR ''['', CHR ''{''}
          else set (render t) \<subseteq> set valueChars)"
  using assms literal_valueChars by (cases t) (simp_all add: number_token_def)

lemma render_hd:
  assumes "well_formed fc t"
  shows "render t \<noteq> []" "\<not> isWhitespace (hd (render t))" "hd (render t) \<noteq> CHR '']''"
    "hd (render t) \<noteq> CHR ''}''" "hd (render t) \<noteq> CHR '',''"
proof -
  show ne: "render t \<noteq> []" using render_start[OF assms] by simp
  have "\<not> isWhitespace (hd (render t)) \<and> hd (render t) \<noteq> CHR '']''
      \<and> hd (render t) \<noteq> CHR ''}'' \<and> hd (render t) \<noteq> CHR '',''"
  proof (cases "self_delimiting t")
    case True
    then have "hd (render t) \<in> {quote, CHR ''['', CHR ''{''}"
      using render_start[OF assms] by simp
    then show ?thesis by (auto simp: isWhitespace_def)
  next
    case False
    then have sub: "set (render t) \<subseteq> set valueChars"
      using render_start[OF assms] by simp
    have "CHR '','' \<notin> set valueChars" by (simp add: valueChars_def)
    moreover have "hd (render t) \<in> set valueChars" using ne sub by (cases "render t") auto
    ultimately show ?thesis using hd_valueChars[OF ne sub] by auto
  qed
  then show "\<not> isWhitespace (hd (render t))" "hd (render t) \<noteq> CHR '']''"
    "hd (render t) \<noteq> CHR ''}''" "hd (render t) \<noteq> CHR '',''"
    by simp_all
qed

lemma hd_after_value:
  assumes "whitespace ws" "c \<notin> set valueChars"
  shows "hd (ws @ c # r) \<notin> set valueChars"
proof (cases ws)
  case Nil
  then show ?thesis using assms by simp
next
  case (Cons a list)
  then have "isWhitespace a" using assms(1) by (simp add: whitespace_def)
  then show ?thesis using Cons not_whitespace_valueChars by auto
qed

lemma skipWhitespace_whitespace:
  assumes "whitespace ws" "\<not> isWhitespace c"
  shows "skipWhitespace (pre @ ws @ c # post) (length pre) = length pre + length ws"
  using skipWhitespace_segment[of ws "c # post" pre] assms whitespace_ball by simp

lemma skipSeparator_comma:
  assumes "whitespace ws" "whitespace ws'" "\<not> isWhitespace c"
  shows "skipSeparator (pre @ ws @ CHR '','' # ws' @ c # post) (length pre)
         = (True, length pre + length ws + 1 + length ws')"
proof -
  define src where "src = pre @ ws @ CHR '','' # ws' @ c # post"
  have a: "skipWhitespace src (length pre) = length pre + length ws"
    unfolding src_def by (rule skipWhitespace_whitespace[OF assms(1)]) (simp add: isWhitespace_def)
  have "skipWhitespace ((pre @ ws @ '','') @ ws' @ c # post) (length (pre @ ws @ '',''))
      = length (pre @ ws @ '','') + length ws'"
    by (rule skipWhitespace_whitespace[OF assms(2,3)])
  then have b: "skipWhitespace src (Suc (length pre + length ws)) = length pre + length ws + 1 + length ws'"
    by (simp add: src_def)
  have nth: "src ! (length pre + length ws) = CHR '',''"
    by (simp add: src_def nth_append)
  have lt: "length pre + length ws < length src" by (simp add: src_def)
  have "skipSeparator src (length pre) = (True, length pre + length ws + 1 + length ws')"
    using a b nth lt by (simp add: skipSeparator_def)
  then show ?thesis by (simp add: src_def)
qed

lemma skipSeparator_trailing:
  assumes "whitespace ws" "whitespace (case t of None \<Rightarrow> [] | Some ws' \<Rightarrow> ws')"
    and "\<not> isWhitespace c" "c \<noteq> CHR '',''"
  shows "skipSeparator (pre @ ws @ trailing_comma t @ c # post) (length pre)
         = (t \<noteq> None, length pre + length ws + length (trailing_comma t))"
proof (cases t)
  case None
  have a: "skipWhitespace (pre @ ws @ c # post) (length pre) = length pre + length ws"
    by (rule skipWhitespace_whitespace[OF assms(1,3)])
  show ?thesis
    using a assms(4) by (simp add: None trailing_comma_def skipSeparator_def nth_append)
next
  case (Some ws')
  then have w': "whitespace ws'" using assms(2) by simp
  show ?thesis
    using skipSeparator_comma[OF assms(1) w' assms(3), of pre post]
    by (simp add: Some trailing_comma_def)
qed

lemma render_elements_hd:
  assumes "well_formed_elements fc es"
  shows "render_elements es \<noteq> []" "\<not> isWhitespace (hd (render_elements es))"
    "hd (render_elements es) \<noteq> CHR '']''"
  using assms render_hd[of fc] by (cases es; simp)+

lemma render_members_hd:
  assumes "well_formed_members fc ms"
  shows "render_members ms \<noteq> []" "hd (render_members ms) = quote"
  using assms by (cases ms; simp)+

lemma trailing_comma_hd:
  assumes "whitespace ws" "c \<notin> set valueChars"
  shows "hd (ws @ trailing_comma t @ c # post) \<notin> set valueChars"
proof (cases t)
  case None
  then show ?thesis using hd_after_value[OF assms, of post] by (simp add: trailing_comma_def)
next
  case (Some ws')
  have "CHR '','' \<notin> set valueChars" by (simp add: valueChars_def)
  from hd_after_value[OF assms(1) this, of "ws' @ c # post"]
  show ?thesis by (simp add: Some trailing_comma_def)
qed

lemma reads_LastElement:
  assumes wf: "well_formed_elements fc (LastElement v ws t)"
    and v: "\<And>pre post. self_delimiting v \<or> post = [] \<or> hd post \<notin> set valueChars \<Longrightarrow>
              parseValue fc (pre @ render v @ post) (length pre)
                = (Ok (value_of v), length pre + length (render v))"
    and w: "whitespace w"
  shows "parseArray fc (pre @ w @ render_elements (LastElement v ws t) @ CHR '']'' # post)
           (length pre) acc
         = (Ok (Array (acc @ elements_of (LastElement v ws t))),
            length pre + length w + length (render_elements (LastElement v ws t)) + 1)"
proof -
  have wfv: "well_formed fc v" and ws: "whitespace ws"
    and wt: "whitespace (case t of None \<Rightarrow> [] | Some ws' \<Rightarrow> ws')"
    using wf by simp_all
  note hdv = render_hd[OF wfv]
  define rest where "rest = ws @ trailing_comma t @ CHR '']'' # post"
  define src where "src = pre @ w @ render v @ rest"
  define p1 where "p1 = length pre + length w"
  define p2 where "p2 = p1 + length (render v)"
  define p3 where "p3 = p2 + length ws + length (trailing_comma t)"
  have lt0: "length pre < length src" using hdv(1) by (simp add: src_def)
  have sk: "skipWhitespace src (length pre) = p1"
    unfolding src_def p1_def
    using hdv(1,2) whitespace_ball[OF w] by (intro skipWhitespace_segment) simp_all
  have lt1: "p1 < length src" using hdv(1) by (simp add: src_def p1_def)
  have "((pre @ w) @ render v @ rest) ! length (pre @ w) = hd (render v)"
    by (rule nth_segment[OF hdv(1)])
  then have nth1: "src ! p1 = hd (render v)" by (simp add: src_def p1_def)
  have "hd rest \<notin> set valueChars"
    unfolding rest_def by (rule trailing_comma_hd[OF ws]) (simp add: valueChars_def)
  then have "parseValue fc ((pre @ w) @ render v @ rest) (length (pre @ w))
      = (Ok (value_of v), length (pre @ w) + length (render v))"
    by (intro v) simp
  then have pv: "parseValue fc src p1 = (Ok (value_of v), p2)"
    by (simp add: src_def p1_def p2_def)
  have "skipSeparator ((pre @ w @ render v) @ ws @ trailing_comma t @ CHR '']'' # post)
          (length (pre @ w @ render v))
      = (t \<noteq> None, length (pre @ w @ render v) + length ws + length (trailing_comma t))"
    by (rule skipSeparator_trailing[OF ws wt]) (simp_all add: isWhitespace_def)
  then have ss: "skipSeparator src p2 = (t \<noteq> None, p3)"
    by (simp add: src_def rest_def p1_def p2_def p3_def add.assoc)
  have "((pre @ w @ render v @ ws @ trailing_comma t) @ CHR '']'' # post)
          ! length (pre @ w @ render v @ ws @ trailing_comma t) = CHR '']''"
    by (rule nth_append_length)
  then have nth3: "src ! p3 = CHR '']''"
    by (simp add: src_def rest_def p1_def p2_def p3_def add.assoc)
  have lt3: "p3 < length src"
    by (simp add: src_def rest_def p1_def p2_def p3_def)
  have "parseArray fc src (length pre) acc = (Ok (Array (acc @ [value_of v])), p3 + 1)"
    using lt0 lt1 hdv(3) lt3
    by (subst parseArray.simps) (simp add: sk nth1 pv ss nth3)
  then show ?thesis
    by (simp add: src_def rest_def p1_def p2_def p3_def add.assoc)
qed

lemma reads_Element:
  assumes wf: "well_formed_elements fc (Element v ws ws' es)"
    and v: "\<And>pre post. self_delimiting v \<or> post = [] \<or> hd post \<notin> set valueChars \<Longrightarrow>
              parseValue fc (pre @ render v @ post) (length pre)
                = (Ok (value_of v), length pre + length (render v))"
    and es: "\<And>pre w post acc. whitespace w \<Longrightarrow>
              parseArray fc (pre @ w @ render_elements es @ CHR '']'' # post) (length pre) acc
                = (Ok (Array (acc @ elements_of es)),
                   length pre + length w + length (render_elements es) + 1)"
    and w: "whitespace w"
  shows "parseArray fc (pre @ w @ render_elements (Element v ws ws' es) @ CHR '']'' # post)
           (length pre) acc
         = (Ok (Array (acc @ elements_of (Element v ws ws' es))),
            length pre + length w + length (render_elements (Element v ws ws' es)) + 1)"
proof -
  have wfv: "well_formed fc v" and ws: "whitespace ws" and ws': "whitespace ws'"
    and wfes: "well_formed_elements fc es"
    using wf by simp_all
  note hdv = render_hd[OF wfv]
  note hde = render_elements_hd[OF wfes]
  define tl_src where "tl_src = render_elements es @ CHR '']'' # post"
  define rest where "rest = ws @ CHR '','' # ws' @ tl_src"
  define src where "src = pre @ w @ render v @ rest"
  define p1 where "p1 = length pre + length w"
  define p2 where "p2 = p1 + length (render v)"
  define p3 where "p3 = p2 + length ws + 1 + length ws'"
  have tl_ne: "tl_src \<noteq> []" and tl_hd: "hd tl_src = hd (render_elements es)"
    using hde(1) by (simp_all add: tl_src_def)
  obtain c r where tl_cons: "tl_src = c # r" and c: "c = hd (render_elements es)"
    using tl_ne tl_hd by (cases tl_src) auto
  have lt0: "length pre < length src" using hdv(1) by (simp add: src_def)
  have sk: "skipWhitespace src (length pre) = p1"
    unfolding src_def p1_def
    using hdv(1,2) whitespace_ball[OF w] by (intro skipWhitespace_segment) simp_all
  have lt1: "p1 < length src" using hdv(1) by (simp add: src_def p1_def)
  have "((pre @ w) @ render v @ rest) ! length (pre @ w) = hd (render v)"
    by (rule nth_segment[OF hdv(1)])
  then have nth1: "src ! p1 = hd (render v)" by (simp add: src_def p1_def)
  have "hd rest \<notin> set valueChars"
    unfolding rest_def by (rule hd_after_value[OF ws]) (simp add: valueChars_def)
  then have "parseValue fc ((pre @ w) @ render v @ rest) (length (pre @ w))
      = (Ok (value_of v), length (pre @ w) + length (render v))"
    by (intro v) simp
  then have pv: "parseValue fc src p1 = (Ok (value_of v), p2)"
    by (simp add: src_def p1_def p2_def)
  have "skipSeparator ((pre @ w @ render v) @ ws @ CHR '','' # ws' @ c # r)
          (length (pre @ w @ render v))
      = (True, length (pre @ w @ render v) + length ws + 1 + length ws')"
    using hde(2) by (intro skipSeparator_comma[OF ws ws']) (simp add: c)
  then have ss: "skipSeparator src p2 = (True, p3)"
    by (simp add: src_def rest_def tl_cons p1_def p2_def p3_def add.assoc)
  have "((pre @ w @ render v @ ws @ CHR '','' # ws') @ c # r)
          ! length (pre @ w @ render v @ ws @ CHR '','' # ws') = c"
    by (rule nth_append_length)
  then have nth3: "src ! p3 = hd (render_elements es)"
    by (simp add: src_def rest_def tl_cons c p1_def p2_def p3_def add.assoc)
  have lt3: "p3 < length src"
    by (simp add: src_def rest_def tl_cons p1_def p2_def p3_def)
  have "parseArray fc ((pre @ w @ render v @ ws @ CHR '','' # ws') @ [] @ render_elements es
          @ CHR '']'' # post) (length (pre @ w @ render v @ ws @ CHR '','' # ws'))
          (acc @ [value_of v])
      = (Ok (Array ((acc @ [value_of v]) @ elements_of es)),
         length (pre @ w @ render v @ ws @ CHR '','' # ws') + length ([] :: string)
           + length (render_elements es) + 1)"
    by (rule es) (simp add: whitespace_def)
  then have rec: "parseArray fc src p3 (acc @ [value_of v])
      = (Ok (Array (acc @ value_of v # elements_of es)), p3 + length (render_elements es) + 1)"
    by (simp add: src_def rest_def tl_src_def p1_def p2_def p3_def add.assoc)
  have "parseArray fc src (length pre) acc
      = (Ok (Array (acc @ value_of v # elements_of es)), p3 + length (render_elements es) + 1)"
    using lt0 lt1 hdv(3) lt3 hde(3)
    by (subst parseArray.simps) (simp add: sk nth1 pv ss nth3 rec)
  then show ?thesis
    by (simp add: src_def rest_def tl_src_def p1_def p2_def p3_def add.assoc)
qed

lemma reads_member_key:
  fixes pre post w key ws1 ws2 :: string and c :: char
  assumes key: "plain_string key" and ws1: "whitespace ws1" and ws2: "whitespace ws2"
    and w: "whitespace w" and c: "\<not> isWhitespace c"
  defines "src \<equiv> pre @ w @ quote # key @ quote # ws1 @ CHR '':'' # ws2 @ c # post"
  shows "length pre < length src"
    and "skipWhitespace src (length pre) = length pre + length w"
    and "length pre + length w < length src"
    and "src ! (length pre + length w) = quote"
    and "parseString src (length pre + length w) = (Ok key, length pre + length w + length key + 2)"
    and "skipWhitespace src (length pre + length w + length key + 2)
           = length pre + length w + length key + 2 + length ws1"
    and "length pre + length w + length key + 2 + length ws1 < length src"
    and "src ! (length pre + length w + length key + 2 + length ws1) = CHR '':''"
    and "skipWhitespace src (length pre + length w + length key + 2 + length ws1 + 1)
           = length pre + length w + length key + 2 + length ws1 + 1 + length ws2"
    and "length pre + length w + length key + 2 + length ws1 + 1 + length ws2 < length src"
    and "src ! (length pre + length w + length key + 2 + length ws1 + 1 + length ws2) = c"
proof -
  show "length pre < length src" by (simp add: src_def)
  show "skipWhitespace src (length pre) = length pre + length w"
    unfolding src_def by (rule skipWhitespace_whitespace[OF w]) (simp add: isWhitespace_def)
  show "length pre + length w < length src" by (simp add: src_def)
  have "((pre @ w) @ quote # key @ quote # ws1 @ CHR '':'' # ws2 @ c # post) ! length (pre @ w) = quote"
    by (rule nth_append_length)
  then show "src ! (length pre + length w) = quote" by (simp add: src_def)
  have "parseString ((pre @ w) @ quote # key @ quote # ws1 @ CHR '':'' # ws2 @ c # post)
          (length (pre @ w)) = (Ok key, length (pre @ w) + length key + 2)"
    by (rule parseString_segment[OF key])
  then show "parseString src (length pre + length w)
      = (Ok key, length pre + length w + length key + 2)"
    by (simp add: src_def)
  have "skipWhitespace ((pre @ w @ quote # key @ [quote]) @ ws1 @ CHR '':'' # ws2 @ c # post)
          (length (pre @ w @ quote # key @ [quote]))
      = length (pre @ w @ quote # key @ [quote]) + length ws1"
    by (rule skipWhitespace_whitespace[OF ws1]) (simp add: isWhitespace_def)
  then show "skipWhitespace src (length pre + length w + length key + 2)
      = length pre + length w + length key + 2 + length ws1"
    by (simp add: src_def add.assoc)
  show "length pre + length w + length key + 2 + length ws1 < length src"
    by (simp add: src_def)
  have "((pre @ w @ quote # key @ quote # ws1) @ CHR '':'' # ws2 @ c # post)
          ! length (pre @ w @ quote # key @ quote # ws1) = CHR '':''"
    by (rule nth_append_length)
  then show "src ! (length pre + length w + length key + 2 + length ws1) = CHR '':''"
    by (simp add: src_def add.assoc)
  have "skipWhitespace ((pre @ w @ quote # key @ quote # ws1 @ '':'') @ ws2 @ c # post)
          (length (pre @ w @ quote # key @ quote # ws1 @ '':''))
      = length (pre @ w @ quote # key @ quote # ws1 @ '':'') + length ws2"
    by (rule skipWhitespace_whitespace[OF ws2 c])
  then show "skipWhitespace src (length pre + length w + length key + 2 + length ws1 + 1)
      = length pre + length w + length key + 2 + length ws1 + 1 + length ws2"
    by (simp add: src_def add.assoc)
  show "length pre + length w + length key + 2 + length ws1 + 1 + length ws2 < length src"
    by (simp add: src_def)
  have "((pre @ w @ quote # key @ quote # ws1 @ CHR '':'' # ws2) @ c # post)
          ! length (pre @ w @ quote # key @ quote # ws1 @ CHR '':'' # ws2) = c"
    by (rule nth_append_length)
  then show "src ! (length pre + length w + length key + 2 + length ws1 + 1 + length ws2) = c"
    by (simp add: src_def add.assoc)
qed

lemma reads_LastMember:
  assumes wf: "well_formed_members fc (LastMember key ws1 ws2 v ws3 t)"
    and v: "\<And>pre post. self_delimiting v \<or> post = [] \<or> hd post \<notin> set valueChars \<Longrightarrow>
              parseValue fc (pre @ render v @ post) (length pre)
                = (Ok (value_of v), length pre + length (render v))"
    and w: "whitespace w"
  shows "parseObject fc
           (pre @ w @ render_members (LastMember key ws1 ws2 v ws3 t) @ CHR ''}'' # post)
           (length pre) acc
         = (Ok (Object (foldl (\<lambda>obj (key, v). emplace obj key v) acc
                          (members_of (LastMember key ws1 ws2 v ws3 t)))),
            length pre + length w + length (render_members (LastMember key ws1 ws2 v ws3 t)) + 1)"
proof -
  have key: "plain_string key" and ws1: "whitespace ws1" and ws2: "whitespace ws2"
    and wfv: "well_formed fc v" and ws3: "whitespace ws3"
    and wt: "whitespace (case t of None \<Rightarrow> [] | Some ws' \<Rightarrow> ws')"
    using wf by simp_all
  note hdv = render_hd[OF wfv]
  define rest where "rest = ws3 @ trailing_comma t @ CHR ''}'' # post"
  define K where "K = pre @ w @ quote # key @ quote # ws1 @ CHR '':'' # ws2"
  define src where "src = K @ render v @ rest"
  define p1 where "p1 = length pre + length w"
  define p2 where "p2 = p1 + length key + 2"
  define p3 where "p3 = p2 + length ws1"
  define p4 where "p4 = p3 + 1 + length ws2"
  define p5 where "p5 = p4 + length (render v)"
  define p6 where "p6 = p5 + length ws3 + length (trailing_comma t)"
  have lenK: "length K = p4" by (simp add: K_def p1_def p2_def p3_def p4_def)
  obtain c r where cr: "render v @ rest = c # r" and c: "c = hd (render v)"
    using hdv(1) by (cases "render v") auto
  have src': "src = pre @ w @ quote # key @ quote # ws1 @ CHR '':'' # ws2 @ c # r"
    by (simp add: src_def K_def cr)
  have nws: "\<not> isWhitespace c" using hdv(2) c by simp
  note m = reads_member_key[OF key ws1 ws2 w nws, of pre r, folded src']
  have lt0: "length pre < length src" by (rule m(1))
  have sk: "skipWhitespace src (length pre) = p1" using m(2) by (simp add: p1_def)
  have lt1: "p1 < length src" using m(3) by (simp add: p1_def)
  have nth1: "src ! p1 = quote" using m(4) by (simp add: p1_def)
  have ps: "parseString src p1 = (Ok key, p2)" using m(5) by (simp add: p1_def p2_def)
  have sk2: "skipWhitespace src p2 = p3" using m(6) by (simp add: p1_def p2_def p3_def)
  have lt3: "p3 < length src" using m(7) by (simp add: p1_def p2_def p3_def)
  have nth3: "src ! p3 = CHR '':''" using m(8) by (simp add: p1_def p2_def p3_def)
  have sk3: "skipWhitespace src (p3 + 1) = p4" using m(9) by (simp add: p1_def p2_def p3_def p4_def)
  have lt4: "p4 < length src" using m(10) by (simp add: p1_def p2_def p3_def p4_def)
  have "hd rest \<notin> set valueChars"
    unfolding rest_def by (rule trailing_comma_hd[OF ws3]) (simp add: valueChars_def)
  then have "parseValue fc (K @ render v @ rest) (length K)
      = (Ok (value_of v), length K + length (render v))"
    by (intro v) simp
  then have pv: "parseValue fc src p4 = (Ok (value_of v), p5)"
    by (simp add: src_def lenK p5_def)
  have "skipSeparator ((K @ render v) @ ws3 @ trailing_comma t @ CHR ''}'' # post)
          (length (K @ render v))
      = (t \<noteq> None, length (K @ render v) + length ws3 + length (trailing_comma t))"
    by (rule skipSeparator_trailing[OF ws3 wt]) (simp_all add: isWhitespace_def)
  then have ss: "skipSeparator src p5 = (t \<noteq> None, p6)"
    by (simp add: src_def rest_def lenK p5_def p6_def add.assoc)
  have "((K @ render v @ ws3 @ trailing_comma t) @ CHR ''}'' # post)
          ! length (K @ render v @ ws3 @ trailing_comma t) = CHR ''}''"
    by (rule nth_append_length)
  then have nth6: "src ! p6 = CHR ''}''"
    by (simp add: src_def rest_def lenK p5_def p6_def add.assoc)
  have lt6: "p6 < length src"
    by (simp add: src_def rest_def lenK p5_def p6_def)
  have "parseObject fc src (length pre) acc = (Ok (Object (emplace acc key (value_of v))), p6 + 1)"
    using lt0 lt1 lt3 lt4 lt6 sk nth1 ps sk2 nth3 sk3 pv ss nth6
    by (subst parseObject.simps) simp
  then show ?thesis
    by (simp add: src_def rest_def K_def p1_def p2_def p3_def p4_def p5_def p6_def add.assoc)
qed

lemma reads_Member:
  assumes wf: "well_formed_members fc (Member key ws1 ws2 v ws3 ws4 ms)"
    and v: "\<And>pre post. self_delimiting v \<or> post = [] \<or> hd post \<notin> set valueChars \<Longrightarrow>
              parseValue fc (pre @ render v @ post) (length pre)
                = (Ok (value_of v), length pre + length (render v))"
    and ms: "\<And>pre w post acc. whitespace w \<Longrightarrow>
              parseObject fc (pre @ w @ render_members ms @ CHR ''}'' # post) (length pre) acc
                = (Ok (Object (foldl (\<lambda>obj (key, v). emplace obj key v) acc (members_of ms))),
                   length pre + length w + length (render_members ms) + 1)"
    and w: "whitespace w"
  shows "parseObject fc
           (pre @ w @ render_members (Member key ws1 ws2 v ws3 ws4 ms) @ CHR ''}'' # post)
           (length pre) acc
         = (Ok (Object (foldl (\<lambda>obj (key, v). emplace obj key v) acc
                          (members_of (Member key ws1 ws2 v ws3 ws4 ms)))),
            length pre + length w + length (render_members (Member key ws1 ws2 v ws3 ws4 ms)) + 1)"
proof -
  have key: "plain_string key" and ws1: "whitespace ws1" and ws2: "whitespace ws2"
    and wfv: "well_formed fc v" and ws3: "whitespace ws3" and ws4: "whitespace ws4"
    and wfms: "well_formed_members fc ms"
    using wf by simp_all
  note hdv = render_hd[OF wfv]
  note hdm = render_members_hd[OF wfms]
  define tl_src where "tl_src = render_members ms @ CHR ''}'' # post"
  define rest where "rest = ws3 @ CHR '','' # ws4 @ tl_src"
  define K where "K = pre @ w @ quote # key @ quote # ws1 @ CHR '':'' # ws2"
  define src where "src = K @ render v @ rest"
  define p1 where "p1 = length pre + length w"
  define p2 where "p2 = p1 + length key + 2"
  define p3 where "p3 = p2 + length ws1"
  define p4 where "p4 = p3 + 1 + length ws2"
  define p5 where "p5 = p4 + length (render v)"
  define p6 where "p6 = p5 + length ws3 + 1 + length ws4"
  have lenK: "length K = p4" by (simp add: K_def p1_def p2_def p3_def p4_def)
  obtain c r where cr: "render v @ rest = c # r" and c: "c = hd (render v)"
    using hdv(1) by (cases "render v") auto
  obtain r' where tl_cons: "tl_src = quote # r'"
    using hdm by (cases "render_members ms") (auto simp: tl_src_def)
  have src': "src = pre @ w @ quote # key @ quote # ws1 @ CHR '':'' # ws2 @ c # r"
    by (simp add: src_def K_def cr)
  have nws: "\<not> isWhitespace c" using hdv(2) c by simp
  note m = reads_member_key[OF key ws1 ws2 w nws, of pre r, folded src']
  have lt0: "length pre < length src" by (rule m(1))
  have sk: "skipWhitespace src (length pre) = p1" using m(2) by (simp add: p1_def)
  have lt1: "p1 < length src" using m(3) by (simp add: p1_def)
  have nth1: "src ! p1 = quote" using m(4) by (simp add: p1_def)
  have ps: "parseString src p1 = (Ok key, p2)" using m(5) by (simp add: p1_def p2_def)
  have sk2: "skipWhitespace src p2 = p3" using m(6) by (simp add: p1_def p2_def p3_def)
  have lt3: "p3 < length src" using m(7) by (simp add: p1_def p2_def p3_def)
  have nth3: "src ! p3 = CHR '':''" using m(8) by (simp add: p1_def p2_def p3_def)
  have sk3: "skipWhitespace src (p3 + 1) = p4" using m(9) by (simp add: p1_def p2_def p3_def p4_def)
  have lt4: "p4 < length src" using m(10) by (simp add: p1_def p2_def p3_def p4_def)
  have "hd rest \<notin> set valueChars"
    unfolding rest_def by (rule hd_after_value[OF ws3]) (simp add: valueChars_def)
  then have "parseValue fc (K @ render v @ rest) (length K)
      = (Ok (value_of v), length K + length (render v))"
    by (intro v) simp
  then have pv: "parseValue fc src p4 = (Ok (value_of v), p5)"
    by (simp add: src_def lenK p5_def)
  have "skipSeparator ((K @ render v) @ ws3 @ CHR '','' # ws4 @ quote # r')
          (length (K @ render v))
      = (True, length (K @ render v) + length ws3 + 1 + length ws4)"
    by (rule skipSeparator_comma[OF ws3 ws4]) (simp add: isWhitespace_def)
  then have ss: "skipSeparator src p5 = (True, p6)"
    by (simp add: src_def rest_def tl_cons lenK p5_def p6_def add.assoc)
  have "((K @ render v @ ws3 @ CHR '','' # ws4) @ quote # r')
          ! length (K @ render v @ ws3 @ CHR '','' # ws4) = quote"
    by (rule nth_append_length)
  then have nth6: "src ! p6 = quote"
    by (simp add: src_def rest_def tl_cons lenK p5_def p6_def add.assoc)
  have lt6: "p6 < length src"
    by (simp add: src_def rest_def tl_cons lenK p5_def p6_def)
  have "parseObject fc ((K @ render v @ ws3 @ CHR '','' # ws4) @ [] @ render_members ms
          @ CHR ''}'' # post) (length (K @ render v @ ws3 @ CHR '','' # ws4))
          (emplace acc key (value_of v))
      = (Ok (Object (foldl (\<lambda>obj (key, v). emplace obj key v) (emplace acc key (value_of v))
                      (members_of ms))),
         length (K @ render v @ ws3 @ CHR '','' # ws4) + length ([] :: string)
           + length (render_members ms) + 1)"
    by (rule ms) (simp add: whitespace_def)
  then have rec: "parseObject fc src p6 (emplace acc key (value_of v))
      = (Ok (Object (foldl (\<lambda>obj (key, v). emplace obj key v) (emplace acc key (value_of v))
                      (members_of ms))),
         p6 + length (render_members ms) + 1)"
    by (simp add: src_def rest_def tl_src_def lenK p5_def p6_def add.assoc)
  have "parseObject fc src (length pre) acc
      = (Ok (Object (foldl (\<lambda>obj (key, v). emplace obj key v) (emplace acc key (value_of v))
                      (members_of ms))),
         p6 + length (render_members ms) + 1)"
    using lt0 lt1 lt3 lt4 lt6 sk nth1 ps sk2 nth3 sk3 pv ss nth6 rec
    by (subst parseObject.simps) simp
  then show ?thesis
    by (simp add: src_def rest_def tl_src_def K_def p1_def p2_def p3_def p4_def p5_def p6_def
        add.assoc)
qed

lemma reads_StringText:
  assumes "plain_string s"
  shows "parseValue fc (pre @ render (StringText s) @ post) (length pre)
         = (Ok (String s), length pre + length (render (StringText s)))"
proof -
  define src where "src = pre @ quote # s @ quote # post"
  have lt: "length pre < length src" and nth: "src ! length pre = quote"
    by (simp_all add: src_def)
  have sk: "skipWhitespace src (length pre) = length pre"
    by (rule skipWhitespace_stay) (simp_all add: lt nth isWhitespace_def)
  have ps: "parseString src (length pre) = (Ok s, length pre + length s + 2)"
    unfolding src_def by (rule parseString_segment[OF assms])
  have "parseValue fc src (length pre) = (Ok (String s), length pre + length s + 2)"
    using lt by (subst parseValue.simps) (simp add: sk ps nth)
  then show ?thesis by (simp add: src_def)
qed

lemma reads_EmptyArrayText:
  assumes "whitespace ws"
  shows "parseValue fc (pre @ render (EmptyArrayText ws) @ post) (length pre)
         = (Ok (Array []), length pre + length (render (EmptyArrayText ws)))"
proof -
  define src where "src = pre @ CHR ''['' # ws @ CHR '']'' # post"
  have lt: "length pre < length src" "Suc (length pre) < length src"
    and nth: "src ! length pre = CHR ''[''"
    by (simp_all add: src_def)
  have sk: "skipWhitespace src (length pre) = length pre"
    by (rule skipWhitespace_stay) (simp_all add: lt nth isWhitespace_def)
  have "skipWhitespace ((pre @ ''['') @ ws @ CHR '']'' # post) (length (pre @ ''[''))
      = length (pre @ ''['') + length ws"
    by (rule skipWhitespace_whitespace[OF assms]) (simp add: isWhitespace_def)
  then have sk1: "skipWhitespace src (Suc (length pre)) = length pre + 1 + length ws"
    by (simp add: src_def)
  have "((pre @ CHR ''['' # ws) @ CHR '']'' # post) ! length (pre @ CHR ''['' # ws) = CHR '']''"
    by (rule nth_append_length)
  then have nth1: "src ! (length pre + 1 + length ws) = CHR '']''"
    by (simp add: src_def)
  have lt1: "length pre + 1 + length ws < length src" by (simp add: src_def)
  have pa: "parseArray fc src (Suc (length pre)) [] = (Ok (Array []), length pre + 1 + length ws + 1)"
    using lt lt1 sk1 nth1 by (subst parseArray.simps) simp
  have "parseValue fc src (length pre) = (Ok (Array []), length pre + 1 + length ws + 1)"
    using lt pa by (subst parseValue.simps) (simp add: sk nth)
  then show ?thesis by (simp add: src_def)
qed

lemma reads_EmptyObjectText:
  assumes "whitespace ws"
  shows "parseValue fc (pre @ render (EmptyObjectText ws) @ post) (length pre)
         = (Ok (Object []), length pre + length (render (EmptyObjectText ws)))"
proof -
  define src where "src = pre @ CHR ''{'' # ws @ CHR ''}'' # post"
  have lt: "length pre < length src" "Suc (length pre) < length src"
    and nth: "src ! length pre = CHR ''{''"
    by (simp_all add: src_def)
  have sk: "skipWhitespace src (length pre) = length pre"
    by (rule skipWhitespace_stay) (simp_all add: lt nth isWhitespace_def)
  have "skipWhitespace ((pre @ ''{'') @ ws @ CHR ''}'' # post) (length (pre @ ''{''))
      = length (pre @ ''{'') + length ws"
    by (rule skipWhitespace_whitespace[OF assms]) (simp add: isWhitespace_def)
  then have sk1: "skipWhitespace src (Suc (length pre)) = length pre + 1 + length ws"
    by (simp add: src_def)
  have "((pre @ CHR ''{'' # ws) @ CHR ''}'' # post) ! length (pre @ CHR ''{'' # ws) = CHR ''}''"
    by (rule nth_append_length)
  then have nth1: "src ! (length pre + 1 + length ws) = CHR ''}''"
    by (simp add: src_def)
  have lt1: "length pre + 1 + length ws < length src" by (simp add: src_def)
  have pa: "parseObject fc src (Suc (length pre)) [] = (Ok (Object []), length pre + 1 + length ws + 1)"
    using lt lt1 sk1 nth1 by (subst parseObject.simps) simp
  have "parseValue fc src (length pre) = (Ok (Object []), length pre + 1 + length ws + 1)"
    using lt pa by (subst parseValue.simps) (simp add: sk nth)
  then show ?thesis by (simp add: src_def)
qed

lemma reads_ArrayText:
  assumes ws: "whitespace ws"
    and es: "\<And>pre w post acc. whitespace w \<Longrightarrow>
              parseArray fc (pre @ w @ render_elements es @ CHR '']'' # post) (length pre) acc
                = (Ok (Array (acc @ elements_of es)),
                   length pre + length w + length (render_elements es) + 1)"
  shows "parseValue fc (pre @ render (ArrayText ws es) @ post) (length pre)
         = (Ok (value_of (ArrayText ws es)), length pre + length (render (ArrayText ws es)))"
proof -
  define src where "src = pre @ CHR ''['' # ws @ render_elements es @ CHR '']'' # post"
  have lt: "length pre < length src" and nth: "src ! length pre = CHR ''[''"
    by (simp_all add: src_def)
  have sk: "skipWhitespace src (length pre) = length pre"
    by (rule skipWhitespace_stay) (simp_all add: lt nth isWhitespace_def)
  have "parseArray fc ((pre @ ''['') @ ws @ render_elements es @ CHR '']'' # post)
          (length (pre @ ''['')) []
      = (Ok (Array ([] @ elements_of es)),
         length (pre @ ''['') + length ws + length (render_elements es) + 1)"
    by (rule es[OF ws])
  then have pa: "parseArray fc src (Suc (length pre)) []
      = (Ok (Array (elements_of es)), length pre + 1 + length ws + length (render_elements es) + 1)"
    by (simp add: src_def)
  have "parseValue fc src (length pre)
      = (Ok (Array (elements_of es)), length pre + 1 + length ws + length (render_elements es) + 1)"
    using lt pa by (subst parseValue.simps) (simp add: sk nth)
  then show ?thesis by (simp add: src_def)
qed

lemma reads_ObjectText:
  assumes ws: "whitespace ws"
    and ms: "\<And>pre w post acc. whitespace w \<Longrightarrow>
              parseObject fc (pre @ w @ render_members ms @ CHR ''}'' # post) (length pre) acc
                = (Ok (Object (foldl (\<lambda>obj (key, v). emplace obj key v) acc (members_of ms))),
                   length pre + length w + length (render_members ms) + 1)"
  shows "parseValue fc (pre @ render (ObjectText ws ms) @ post) (length pre)
         = (Ok (value_of (ObjectText ws ms)), length pre + length (render (ObjectText ws ms)))"
proof -
  define src where "src = pre @ CHR ''{'' # ws @ render_members ms @ CHR ''}'' # post"
  have lt: "length pre < length src" and nth: "src ! length pre = CHR ''{''"
    by (simp_all add: src_def)
  have sk: "skipWhitespace src (length pre) = length pre"
    by (rule skipWhitespace_stay) (simp_all add: lt nth isWhitespace_def)
  have "parseObject fc ((pre @ ''{'') @ ws @ render_members ms @ CHR ''}'' # post)
          (length (pre @ ''{'')) []
      = (Ok (Object (foldl (\<lambda>obj (key, v). emplace obj key v) [] (members_of ms))),
         length (pre @ ''{'') + length ws + length (render_members ms) + 1)"
    by (rule ms[OF ws])
  then have pa: "parseObject fc src (Suc (length pre)) []
      = (Ok (Object (foldl (\<lambda>obj (key, v). emplace obj key v) [] (members_of ms))),
         length pre + 1 + length ws + length (render_members ms) + 1)"
    by (simp add: src_def)
  have "parseValue fc src (length pre)
      = (Ok (Object (foldl (\<lambda>obj (key, v). emplace obj key v) [] (members_of ms))),
         length pre + 1 + length ws + length (render_members ms) + 1)"
    using lt pa by (subst parseValue.simps) (simp add: sk nth)
  then show ?thesis by (simp add: src_def)
qed

lemma reads_text:
  "well_formed fc t \<Longrightarrow> self_delimiting t \<or> post = [] \<or> hd post \<notin> set valueChars \<Longrightarrow>
     parseValue fc (pre @ render t @ post) (length pre)
       = (Ok (value_of t), length pre + length (render t))"
  "well_formed_elements fc es \<Longrightarrow> whitespace w \<Longrightarrow>
     parseArray fc (pre @ w @ render_elements es @ CHR '']'' # post) (length pre) acc
       = (Ok (Array (acc @ elements_of es)),
          length pre + length w + length (render_elements es) + 1)"
  "well_formed_members fc ms \<Longrightarrow> whitespace w \<Longrightarrow>
     parseObject fc (pre @ w @ render_members ms @ CHR ''}'' # post) (length pre) obj
       = (Ok (Object (foldl (\<lambda>obj (key, v). emplace obj key v) obj (members_of ms))),
          length pre + length w + length (render_members ms) + 1)"
proof (induction t and es and ms arbitrary: pre post and pre w post acc and pre w post obj)
  case NullText
  then show ?case
    using parseValue_literal_text[of "''null''" post fc pre] literal_valueChars by simp
next
  case TrueText
  then show ?case
    using parseValue_literal_text[of "''true''" post fc pre] literal_valueChars by simp
next
  case FalseText
  then show ?case
    using parseValue_literal_text[of "''false''" post fc pre] literal_valueChars by simp
next
  case (NumberText tok d)
  then have "post = [] \<or> hd post \<notin> set valueChars" by simp
  with NumberText show ?case
    using parseValue_number_text[of tok post fc d pre] by (simp add: number_token_def)
next
  case (StringText s)
  then show ?case using reads_StringText[of s fc pre post] by simp
next
  case (EmptyArrayText ws)
  then show ?case using reads_EmptyArrayText[of ws fc pre post] by simp
next
  case (ArrayText ws es)
  then have ws: "whitespace ws" and wf: "well_formed_elements fc es" by simp_all
  show ?case by (rule reads_ArrayText[OF ws]) (rule ArrayText.IH[OF wf])
next
  case (EmptyObjectText ws)
  then show ?case using reads_EmptyObjectText[of ws fc pre post] by simp
next
  case (ObjectText ws ms)
  then have ws: "whitespace ws" and wf: "well_formed_members fc ms" by simp_all
  show ?case by (rule reads_ObjectText[OF ws]) (rule ObjectText.IH[OF wf])
next
  case (LastElement v ws t)
  then have wf: "well_formed fc v" by simp
  show ?case
    by (rule reads_LastElement[OF LastElement.prems(1) _ LastElement.prems(2)])
       (rule LastElement.IH[OF wf])
next
  case (Element v ws ws' es)
  then have wf: "well_formed fc v" "well_formed_elements fc es" by simp_all
  show ?case
    by (rule reads_Element[OF Element.prems(1) _ _ Element.prems(2)])
       (erule Element.IH(1)[OF wf(1)], erule Element.IH(2)[OF wf(2)])
next
  case (LastMember key ws1 ws2 v ws3 t)
  then have wf: "well_formed fc v" by simp
  show ?case
    by (rule reads_LastMember[OF LastMember.prems(1) _ LastMember.prems(2)])
       (rule LastMember.IH[OF wf])
next
  case (Member key ws1 ws2 v ws3 ws4 ms)
  then have wf: "well_formed fc v" "well_formed_members fc ms" by simp_all
  show ?case
    by (rule reads_Member[OF Member.prems(1) _ _ Member.prems(2)])
       (erule Member.IH(1)[OF wf(1)], erule Member.IH(2)[OF wf(2)])
qed

lemma skipWhitespace_idem: "skipWhitespace s (skipWhitespace s c) = skipWhitespace s c"
proof (induction s c rule: skipWhitespace.induct)
  case (1 source cur)
  show ?case
  proof (cases "cur < length source \<and> isWhitespace (source ! cur)")
    case True
    then have "skipWhitespace source cur = skipWhitespace source (cur + 1)"
      by (subst skipWhitespace.simps) simp
    with "1.IH"[OF True] show ?thesis by simp
  next
    case False
    then have "skipWhitespace source cur = cur"
      by (subst skipWhitespace.simps) auto
    then show ?thesis by simp
  qed
qed

lemma parseValue_skip: "parseValue fc s c = parseValue fc s (skipWhitespace s c)"
  by (subst parseValue.simps, subst parseValue.simps) (simp add: skipWhitespace_idem)

text \<open>
  C9, as amended: for every well-formed text of a value, in front of it any whitespace and
  behind it any bytes, of which the first is outside the scanned set when the value is a
  literal or a number: \<^verbatim>\<open>parseValue\<close> returns the value with the cursor right behind
  the text, and \<^verbatim>\<open>parse\<close> returns the value; the bytes behind it are not looked at.
  And on every buffer whatever, a value returned with the cursor before the end of the
  buffer is the value returned when further bytes are appended.
\<close>

theorem parse_ignores_trailing_bytes:
  assumes "well_formed fc t" and "whitespace ws"
    and "self_delimiting t \<or> rest = [] \<or> hd rest \<notin> set valueChars"
  shows "parseValue fc (ws @ render t @ rest) 0
           = (Ok (value_of t), length ws + length (render t))
         \<and> parse fc (ws @ render t @ rest) = Ok (value_of t)
         \<and> (\<forall>s v c more. parseValue fc s 0 = (Ok v, c) \<and> c < length s \<longrightarrow>
               parse fc (s @ more) = Ok v)"
proof -
  define src where "src = ws @ render t @ rest"
  note hd = render_hd[OF assms(1)]
  have "skipWhitespace ([] @ ws @ render t @ rest) (length ([] :: string))
      = length ([] :: string) + length ws"
    using hd(1,2) whitespace_ball[OF assms(2)] by (intro skipWhitespace_segment) simp_all
  then have sk: "skipWhitespace src 0 = length ws" by (simp add: src_def)
  have "parseValue fc src 0 = parseValue fc src (length ws)"
    by (subst parseValue_skip) (simp add: sk)
  also have "\<dots> = (Ok (value_of t), length ws + length (render t))"
    unfolding src_def by (rule reads_text(1)[OF assms(1,3)])
  finally have pv: "parseValue fc (ws @ render t @ rest) 0
      = (Ok (value_of t), length ws + length (render t))"
    by (simp add: src_def)
  have ap: "\<forall>s v c more. parseValue fc s 0 = (Ok v, c) \<and> c < length s \<longrightarrow>
      parse fc (s @ more) = Ok v"
    by (intro allI impI) (simp add: parse_def parse_append(1))
  show ?thesis
    by (intro conjI) (rule pv, simp add: parse_def pv, rule ap)
qed

text \<open>
  A literal and a number followed by a space, an array followed by a scanned character,
  and an object with whitespace, a nested array and a comma in front of a closing
  bracket, after a leading space and followed by two brackets.
\<close>

theorem parse_ignores_trailing_bytes_witness:
  "parse from_chars_model ''true garbage'' = Ok (Bool True)
   \<and> parse from_chars_model ''1 2'' = Ok (Number (Finite 1))
   \<and> parse from_chars_model ''[1]x'' = Ok (Array [Number (Finite 1)])
   \<and> parse from_chars_model ('' {'' @ [quote] @ ''a'' @ [quote] @ '': [true, null ,],''
         @ [newline, quote] @ ''b'' @ [quote] @ '':'' @ [quote] @ ''s'' @ [quote] @ ''}]]'')
       = Ok (Object [(''a'', Array [Bool True, Null]), (''b'', String ''s'')])"
proof -
  define one :: "double value_text" where "one = NumberText ''1'' (Finite 1)"
  define arr :: "double value_text" where "arr = ArrayText [] (LastElement one [] None)"
  define obj :: "double value_text" where
    "obj = ObjectText []
       (Member ''a'' [] '' ''
          (ArrayText [] (Element TrueText [] '' '' (LastElement NullText '' '' (Some []))))
          [] [newline]
          (LastMember ''b'' [] [] (StringText ''s'') [] None))"
  have wf: "well_formed from_chars_model TrueText" "well_formed from_chars_model one"
    "well_formed from_chars_model arr" "well_formed from_chars_model obj"
    unfolding one_def arr_def obj_def by code_simp+
  have ws: "whitespace []" "whitespace '' ''" by (simp_all add: whitespace_def isWhitespace_def)
  have d: "self_delimiting (TrueText :: double value_text) \<or> '' garbage'' = []
        \<or> hd '' garbage'' \<notin> set valueChars"
    "self_delimiting one \<or> '' 2'' = [] \<or> hd '' 2'' \<notin> set valueChars"
    "self_delimiting arr \<or> ''x'' = [] \<or> hd ''x'' \<notin> set valueChars"
    "self_delimiting obj \<or> '']]'' = [] \<or> hd '']]'' \<notin> set valueChars"
    by (simp_all add: valueChars_def arr_def obj_def)
  note r1 = parse_ignores_trailing_bytes[OF wf(1) ws(1) d(1), THEN conjunct2, THEN conjunct1]
  note r2 = parse_ignores_trailing_bytes[OF wf(2) ws(1) d(2), THEN conjunct2, THEN conjunct1]
  note r3 = parse_ignores_trailing_bytes[OF wf(3) ws(1) d(3), THEN conjunct2, THEN conjunct1]
  note r4 = parse_ignores_trailing_bytes[OF wf(4) ws(2) d(4), THEN conjunct2, THEN conjunct1]
  have 1: "parse from_chars_model ''true garbage'' = Ok (Bool True)"
    using r1 by simp
  have 2: "parse from_chars_model ''1 2'' = Ok (Number (Finite 1))"
    using r2 by (simp add: one_def)
  have 3: "parse from_chars_model ''[1]x'' = Ok (Array [Number (Finite 1)])"
    using r3 by (simp add: arr_def one_def trailing_comma_def)
  have 4: "parse from_chars_model ('' {'' @ [quote] @ ''a'' @ [quote] @ '': [true, null ,],''
         @ [newline, quote] @ ''b'' @ [quote] @ '':'' @ [quote] @ ''s'' @ [quote] @ ''}]]'')
       = Ok (Object [(''a'', Array [Bool True, Null]), (''b'', String ''s'')])"
    using r4 by (simp add: obj_def trailing_comma_def)
  from 1 2 3 4 show ?thesis by simp
qed

text \<open>
  C9 as stated, for every buffer that begins with a complete value, fails: a literal or a
  number directly followed by characters of the scanned set is one token with them. The
  buffer \<open>true\<close> parses to the Bool true and \<open>12\<close> to a Number, but \<open>truex\<close> and
  \<open>12abc\<close> are rejected as \<^verbatim>\<open>Invalid number\<close>. And a string with an escape is a
  complete value that ends in the read beyond the string being built.
\<close>

theorem parse_ignores_trailing_bytes_counterexample:
  "parse from_chars_model ''true'' = Ok (Bool True)
   \<and> parse from_chars_model ''truex'' = Err \<lparr>cursor = 0, message = ''Invalid number''\<rparr>
   \<and> parse from_chars_model ''12'' = Ok (Number (Finite 12))
   \<and> parse from_chars_model ''12abc'' = Err \<lparr>cursor = 0, message = ''Invalid number''\<rparr>
   \<and> parse from_chars_model ([quote, backslash] @ ''n'' @ [quote] @ '' x'') = Fault OutOfRange"
  by code_simp

subsection \<open>Round trip\<close>

lemma indentStr_empty: "indentStr [] n = []"
  by (simp add: indentStr_def)

lemma skipSeparator_comma_newline:
  assumes "post = [] \<or> \<not> isWhitespace (hd post)"
  shows "skipSeparator (pre @ '','' @ [newline] @ post) (length pre) = (True, length pre + 2)"
proof -
  have a: "skipWhitespace (pre @ '','' @ [newline] @ post) (length pre) = length pre"
    using skipWhitespace_segment[of "[]" "'','' @ [newline] @ post" pre]
    by (simp add: isWhitespace_def)
  have "skipWhitespace ((pre @ '','') @ [newline] @ post) (length (pre @ '','')) 
      = length (pre @ '','') + length [newline]"
    using assms by (intro skipWhitespace_segment) (auto simp: isWhitespace_def)
  then have b: "skipWhitespace (pre @ '','' @ [newline] @ post) (Suc (length pre)) = length pre + 2"
    by simp
  show ?thesis
    using a b by (simp add: skipSeparator_def nth_append)
qed

lemma skipSeparator_newline_close:
  assumes "\<not> isWhitespace c" "c \<noteq> CHR '',''"
  shows "skipSeparator (pre @ [newline] @ c # post) (length pre) = (False, length pre + 1)"
proof -
  have a: "skipWhitespace (pre @ [newline] @ c # post) (length pre) = length pre + length [newline]"
    using assms by (intro skipWhitespace_segment) (auto simp: isWhitespace_def)
  show ?thesis
    using assms a by (simp add: skipSeparator_def nth_append)
qed

lemma emplace_last:
  "sorted_wrt (<) (map fst (acc @ [(key, v)])) \<Longrightarrow> emplace acc key v = acc @ [(key, v)]"
proof (induction acc)
  case Nil
  show ?case by simp
next
  case (Cons a acc)
  obtain k w where a: "a = (k, w)" by (cases a)
  from Cons.prems have "k < key" by (auto simp: a sorted_wrt_append)
  then have "\<not> key < k" by (simp add: not_less less_imp_le)
  moreover note \<open>k < key\<close>
  moreover from Cons.prems have "sorted_wrt (<) (map fst (acc @ [(key, v)]))" by simp
  ultimately show ?case using Cons.IH by (simp add: a)
qed

lemma not_valueChars_separators:
  "CHR '','' \<notin> set valueChars" "newline \<notin> set valueChars"
  by (simp_all add: valueChars_def)

lemma parses_backD:
  "parses_back fc d v \<Longrightarrow> post = [] \<or> hd post \<notin> set valueChars \<Longrightarrow>
     parseValue fc (pre @ d @ post) (length pre) = (Ok v, length pre + length d)"
  unfolding parses_back_def by blast

lemma elements_parse_backD:
  "elements_parse_back fc ret arr \<Longrightarrow> \<forall>c\<in>set ws. isWhitespace c \<Longrightarrow>
     parseArray fc (pre @ ws @ ret @ CHR '']'' # post) (length pre) vals
       = (Ok (Array (vals @ arr)), length pre + length ws + length ret + 1)"
  unfolding elements_parse_back_def by blast

lemma members_parse_backD:
  "members_parse_back fc ret obj \<Longrightarrow> \<forall>c\<in>set ws. isWhitespace c \<Longrightarrow>
     sorted_wrt (<) (map fst (acc @ obj)) \<Longrightarrow>
     parseObject fc (pre @ ws @ ret @ CHR ''}'' # post) (length pre) acc
       = (Ok (Object (acc @ obj)), length pre + length ws + length ret + 1)"
  unfolding members_parse_back_def by blast

lemma parses_back_Null: "parses_back fc ''null'' Null"
  unfolding parses_back_def
proof (intro conjI allI impI)
  fix pre post :: string
  assume "post = [] \<or> hd post \<notin> set valueChars"
  then show "parseValue fc (pre @ ''null'' @ post) (length pre)
      = (Ok Null, length pre + length ''null'')"
    using parseValue_literal_text[of "''null''" post fc pre] by (simp add: valueChars_def)
qed (simp_all add: isWhitespace_def)

lemma parses_back_Bool: "parses_back fc (if b then ''true'' else ''false'') (Bool b)"
  unfolding parses_back_def
proof (intro conjI allI impI)
  fix pre post :: string
  assume "post = [] \<or> hd post \<notin> set valueChars"
  then show "parseValue fc (pre @ (if b then ''true'' else ''false'') @ post) (length pre)
      = (Ok (Bool b), length pre + length (if b then ''true'' else ''false''))"
    using parseValue_literal_text[of "''true''" post fc pre]
      parseValue_literal_text[of "''false''" post fc pre]
    by (simp add: valueChars_def)
qed (simp_all add: isWhitespace_def)

lemma parses_back_Number:
  assumes "number_reads_back fc to_string n"
  shows "parses_back fc (to_string n) (Number n)"
  unfolding parses_back_def
proof (intro conjI allI impI)
  have ne: "to_string n \<noteq> []" and sub: "set (to_string n) \<subseteq> set valueChars"
    using assms by (auto simp: number_reads_back_def)
  show "to_string n \<noteq> []" by (rule ne)
  show "\<not> isWhitespace (hd (to_string n))" "hd (to_string n) \<noteq> CHR '']''"
    "hd (to_string n) \<noteq> CHR ''}''"
    using hd_valueChars[OF ne sub] by simp_all
  fix pre post :: string
  assume "post = [] \<or> hd post \<notin> set valueChars"
  from parseValue_literal_text[OF ne sub this, of fc pre]
  show "parseValue fc (pre @ to_string n @ post) (length pre)
      = (Ok (Number n), length pre + length (to_string n))"
    using assms by (simp add: number_reads_back_def parseNumber_def)
qed

lemma parses_back_String:
  assumes "plain_string s"
  shows "parses_back fc (quote # s @ [quote]) (String s)"
  unfolding parses_back_def
proof (intro conjI allI impI)
  fix pre post :: string
  define src where "src = pre @ (quote # s @ [quote]) @ post"
  have src': "src = pre @ quote # s @ quote # post" by (simp add: src_def)
  have lt: "length pre < length src" and nth: "src ! length pre = quote"
    by (simp_all add: src')
  have sk: "skipWhitespace src (length pre) = length pre"
    by (rule skipWhitespace_stay) (simp_all add: lt nth isWhitespace_def)
  have ps: "parseString src (length pre) = (Ok s, length pre + length s + 2)"
    unfolding src' by (rule parseString_segment[OF assms])
  have "parseValue fc src (length pre) = (Ok (String s), length pre + length s + 2)"
    using lt by (subst parseValue.simps) (simp add: sk ps nth)
  then show "parseValue fc (pre @ (quote # s @ [quote]) @ post) (length pre)
      = (Ok (String s), length pre + length (quote # s @ [quote]))"
    by (simp add: src_def)
qed (simp_all add: isWhitespace_def)

lemma parses_back_Array:
  assumes "elements_parse_back fc ret arr"
  shows "parses_back fc (CHR ''['' # newline # ret @ '']'') (Array arr)"
  unfolding parses_back_def
proof (intro conjI allI impI)
  fix pre post :: string
  define src where "src = pre @ (CHR ''['' # newline # ret @ '']'') @ post"
  have src': "src = (pre @ ''['') @ [newline] @ ret @ CHR '']'' # post" by (simp add: src_def)
  have lt: "length pre < length src" and nth: "src ! length pre = CHR ''[''"
    by (simp_all add: src_def)
  have sk: "skipWhitespace src (length pre) = length pre"
    by (rule skipWhitespace_stay) (simp_all add: lt nth isWhitespace_def)
  have "parseArray fc src (length (pre @ ''['')) []
      = (Ok (Array ([] @ arr)), length (pre @ ''['') + length [newline] + length ret + 1)"
    unfolding src' by (rule elements_parse_backD[OF assms]) (simp add: isWhitespace_def)
  then have pa: "parseArray fc src (Suc (length pre)) [] = (Ok (Array arr), length pre + length ret + 3)"
    by simp
  have "parseValue fc src (length pre) = (Ok (Array arr), length pre + length ret + 3)"
    using lt by (subst parseValue.simps) (simp add: sk pa nth)
  then show "parseValue fc (pre @ (CHR ''['' # newline # ret @ '']'') @ post) (length pre)
      = (Ok (Array arr), length pre + length (CHR ''['' # newline # ret @ '']''))"
    by (simp add: src_def)
qed (simp_all add: isWhitespace_def)

lemma parses_back_Object:
  assumes "members_parse_back fc ret obj" and "sorted_wrt (<) (map fst obj)"
  shows "parses_back fc (CHR ''{'' # newline # ret @ ''}'') (Object obj)"
  unfolding parses_back_def
proof (intro conjI allI impI)
  fix pre post :: string
  define src where "src = pre @ (CHR ''{'' # newline # ret @ ''}'') @ post"
  have src': "src = (pre @ ''{'') @ [newline] @ ret @ CHR ''}'' # post" by (simp add: src_def)
  have lt: "length pre < length src" and nth: "src ! length pre = CHR ''{''"
    by (simp_all add: src_def)
  have sk: "skipWhitespace src (length pre) = length pre"
    by (rule skipWhitespace_stay) (simp_all add: lt nth isWhitespace_def)
  have "parseObject fc src (length (pre @ ''{'')) []
      = (Ok (Object ([] @ obj)), length (pre @ ''{'') + length [newline] + length ret + 1)"
    unfolding src' using assms(2)
    by (intro members_parse_backD[OF assms(1)]) (simp_all add: isWhitespace_def)
  then have pa: "parseObject fc src (Suc (length pre)) [] = (Ok (Object obj), length pre + length ret + 3)"
    by simp
  have "parseValue fc src (length pre) = (Ok (Object obj), length pre + length ret + 3)"
    using lt by (subst parseValue.simps) (simp add: sk pa nth)
  then show "parseValue fc (pre @ (CHR ''{'' # newline # ret @ ''}'') @ post) (length pre)
      = (Ok (Object obj), length pre + length (CHR ''{'' # newline # ret @ ''}''))"
    by (simp add: src_def)
qed (simp_all add: isWhitespace_def)

lemma elements_parse_back_Nil: "elements_parse_back fc [] []"
  unfolding elements_parse_back_def
proof (intro conjI allI impI)
  fix pre ws post :: string and vals :: "'a JsonValue list"
  assume ws: "\<forall>c\<in>set ws. isWhitespace c"
  define src where "src = pre @ ws @ [] @ CHR '']'' # post"
  have sk: "skipWhitespace src (length pre) = length pre + length ws"
    unfolding src_def using skipWhitespace_segment[of ws "CHR '']'' # post" pre] ws
    by (simp add: isWhitespace_def)
  have lt: "length pre < length src" "length pre + length ws < length src"
    and nth: "src ! (length pre + length ws) = CHR '']''"
    by (simp_all add: src_def nth_append)
  have "parseArray fc src (length pre) vals = (Ok (Array vals), length pre + length ws + 1)"
    using lt by (subst parseArray.simps) (simp add: sk nth)
  then show "parseArray fc (pre @ ws @ [] @ CHR '']'' # post) (length pre) vals
      = (Ok (Array (vals @ [])), length pre + length ws + length ([] :: string) + 1)"
    by (simp add: src_def)
qed simp_all

lemma members_parse_back_Nil: "members_parse_back fc [] []"
  unfolding members_parse_back_def
proof (intro conjI allI impI)
  fix pre ws post :: string and acc :: "(string \<times> 'a JsonValue) list"
  assume ws: "\<forall>c\<in>set ws. isWhitespace c"
  define src where "src = pre @ ws @ [] @ CHR ''}'' # post"
  have sk: "skipWhitespace src (length pre) = length pre + length ws"
    unfolding src_def using skipWhitespace_segment[of ws "CHR ''}'' # post" pre] ws
    by (simp add: isWhitespace_def)
  have lt: "length pre < length src" "length pre + length ws < length src"
    and nth: "src ! (length pre + length ws) = CHR ''}''"
    by (simp_all add: src_def nth_append)
  have "parseObject fc src (length pre) acc = (Ok (Object acc), length pre + length ws + 1)"
    using lt by (subst parseObject.simps) (simp add: sk nth)
  then show "parseObject fc (pre @ ws @ [] @ CHR ''}'' # post) (length pre) acc
      = (Ok (Object (acc @ [])), length pre + length ws + length ([] :: string) + 1)"
    by (simp add: src_def)
qed simp_all

lemma elements_parse_back_Cons:
  assumes d: "parses_back fc d v" and r: "elements_parse_back fc ret arr"
  shows "elements_parse_back fc (d @ (if arr \<noteq> [] then '','' else []) @ [newline] @ ret) (v # arr)"
  unfolding elements_parse_back_def
proof (intro conjI allI impI)
  have dne: "d \<noteq> []" and dws: "\<not> isWhitespace (hd d)" and dbr: "hd d \<noteq> CHR '']''"
    using d by (auto simp: parses_back_def)
  show "d @ (if arr \<noteq> [] then '','' else []) @ [newline] @ ret \<noteq> []"
    "\<not> isWhitespace (hd (d @ (if arr \<noteq> [] then '','' else []) @ [newline] @ ret))"
    "hd (d @ (if arr \<noteq> [] then '','' else []) @ [newline] @ ret) \<noteq> CHR '']''"
    using dne dws dbr by simp_all
  fix pre ws post :: string and vals :: "'a JsonValue list"
  assume ws: "\<forall>c\<in>set ws. isWhitespace c"
  define sepstr where "sepstr = (if arr \<noteq> [] then '','' else [])"
  define src where "src = pre @ ws @ (d @ sepstr @ [newline] @ ret) @ CHR '']'' # post"
  define p1 where "p1 = length pre + length ws"
  define p2 where "p2 = p1 + length d"
  have lt0: "length pre < length src" by (simp add: src_def)
  have sk: "skipWhitespace src (length pre) = p1"
    unfolding src_def p1_def using ws dne dws
    by (intro skipWhitespace_segment) simp_all
  have lt1: "p1 < length src" and nth1: "src ! p1 = hd d"
    using dne by (simp_all add: src_def p1_def add.assoc nth_append hd_conv_nth)
  have hdpost: "hd (sepstr @ [newline] @ ret @ CHR '']'' # post) \<notin> set valueChars"
    by (simp add: sepstr_def not_valueChars_separators)
  have pv: "parseValue fc src p1 = (Ok v, p2)"
    using parses_backD[OF d, of "sepstr @ [newline] @ ret @ CHR '']'' # post" "pre @ ws"] hdpost
    by (simp add: src_def p1_def add.assoc p2_def)
  have "parseArray fc src (length pre) vals
      = (Ok (Array (vals @ v # arr)), p2 + length sepstr + 1 + length ret + 1)"
  proof (cases "arr = []")
    case True
    then have ret: "ret = []" using r by (simp add: elements_parse_back_def)
    have sep: "sepstr = []" using True by (simp add: sepstr_def)
    have src': "src = (pre @ ws @ d) @ [newline] @ CHR '']'' # post"
      by (simp add: src_def ret sep)
    have ss: "skipSeparator src p2 = (False, p2 + 1)"
      unfolding src' using skipSeparator_newline_close[of "CHR '']''" "pre @ ws @ d" post]
      by (simp add: p2_def p1_def add.assoc isWhitespace_def)
    have lt3: "p2 + 1 < length src" and nth3: "src ! (p2 + 1) = CHR '']''"
      by (simp_all add: src' p2_def p1_def add.assoc nth_append)
    show ?thesis
      using lt0 lt1 lt3 nth3 dbr True
      by (subst parseArray.simps) (simp add: sk nth1 pv ss ret sep)
  next
    case False
    then have rne: "ret \<noteq> []" and rws: "\<not> isWhitespace (hd ret)" and rbr: "hd ret \<noteq> CHR '']''"
      using r by (auto simp: elements_parse_back_def)
    have sep: "sepstr = '',''" using False by (simp add: sepstr_def)
    have src': "src = (pre @ ws @ d) @ '','' @ [newline] @ (ret @ CHR '']'' # post)"
      by (simp add: src_def sep)
    have ss: "skipSeparator src p2 = (True, p2 + 2)"
      unfolding src'
      using skipSeparator_comma_newline[of "ret @ CHR '']'' # post" "pre @ ws @ d"] rne rws
      by (simp add: p2_def p1_def add.assoc)
    have lt3: "p2 + 2 < length src" and nth3: "src ! (p2 + 2) = hd ret"
      using rne by (simp_all add: src' p2_def p1_def add.assoc nth_append hd_conv_nth)
    have src'': "src = (pre @ ws @ d @ '','' @ [newline]) @ [] @ ret @ CHR '']'' # post"
      by (simp add: src')
    have rec: "parseArray fc src (p2 + 2) (vals @ [v])
        = (Ok (Array ((vals @ [v]) @ arr)), p2 + 2 + length ret + 1)"
      using elements_parse_backD[OF r, of "[]" "pre @ ws @ d @ '','' @ [newline]" post "vals @ [v]"]
      by (simp add: src'' p2_def p1_def add.assoc)
    show ?thesis
      using lt0 lt1 lt3 nth3 rec dbr rbr
      by (subst parseArray.simps) (simp add: sk nth1 pv ss sep)
  qed
  then show "parseArray fc
        (pre @ ws @ (d @ (if arr \<noteq> [] then '','' else []) @ [newline] @ ret) @ CHR '']'' # post)
        (length pre) vals
      = (Ok (Array (vals @ v # arr)),
         length pre + length ws
         + length (d @ (if arr \<noteq> [] then '','' else []) @ [newline] @ ret) + 1)"
    by (simp add: src_def sepstr_def p2_def p1_def add.assoc)
qed simp

lemma members_parse_back_Cons:
  assumes k: "plain_string key" and d: "parses_back fc d v"
    and r: "members_parse_back fc ret obj"
  shows "members_parse_back fc
           (quote # key @ [quote] @ '': '' @ d @ (if obj \<noteq> [] then '','' else [])
            @ [newline] @ ret)
           ((key, v) # obj)"
  unfolding members_parse_back_def
proof (intro conjI allI impI)
  have dne: "d \<noteq> []" and dws: "\<not> isWhitespace (hd d)"
    using d by (auto simp: parses_back_def)
  fix pre ws post :: string and acc :: "(string \<times> 'a JsonValue) list"
  assume ws: "\<forall>c\<in>set ws. isWhitespace c"
    and sorted: "sorted_wrt (<) (map fst (acc @ (key, v) # obj))"
  define sepstr where "sepstr = (if obj \<noteq> [] then '','' else [])"
  define tail where "tail = sepstr @ [newline] @ ret @ CHR ''}'' # post"
  define src where "src = pre @ ws @ quote # key @ [quote] @ '': '' @ d @ tail"
  define p1 where "p1 = length pre + length ws"
  define pk where "pk = p1 + length key + 2"
  define pv0 where "pv0 = pk + 2"
  define p2 where "p2 = pv0 + length d"
  have lt0: "length pre < length src" by (simp add: src_def)
  have sk: "skipWhitespace src (length pre) = p1"
    unfolding src_def p1_def using ws
    by (intro skipWhitespace_segment) (simp_all add: isWhitespace_def)
  have lt1: "p1 < length src" and nth1: "src ! p1 = quote"
    by (simp_all add: src_def p1_def add.assoc nth_append)
  have ps: "parseString src p1 = (Ok key, pk)"
    using parseString_segment[OF k, of "pre @ ws" "'': '' @ d @ tail"]
    by (simp add: src_def p1_def add.assoc pk_def)
  have srck: "src = (pre @ ws @ quote # key @ [quote]) @ [] @ '': '' @ d @ tail"
    by (simp add: src_def)
  have ltk: "pk < length src" and nthk: "src ! pk = CHR '':''"
    by (simp_all add: srck pk_def p1_def add.assoc nth_append)
  have sk2: "skipWhitespace src pk = pk"
    by (rule skipWhitespace_stay) (simp_all add: ltk nthk isWhitespace_def)
  have srcv: "src = (pre @ ws @ quote # key @ [quote] @ '':'') @ '' '' @ d @ tail"
    by (simp add: src_def)
  have sk3: "skipWhitespace src (Suc pk) = pv0"
    using skipWhitespace_segment[of "'' ''" "d @ tail" "pre @ ws @ quote # key @ [quote] @ '':''"]
      dne dws
    by (simp add: srcv pk_def p1_def add.assoc pv0_def isWhitespace_def)
  have srcd: "src = (pre @ ws @ quote # key @ [quote] @ '': '') @ d @ tail"
    by (simp add: src_def)
  have ltv: "pv0 < length src"
    using dne by (simp add: srcd pv0_def pk_def p1_def add.assoc)
  have hdpost: "tail = [] \<or> hd tail \<notin> set valueChars"
    by (simp add: tail_def sepstr_def not_valueChars_separators)
  have pv: "parseValue fc src pv0 = (Ok v, p2)"
    using parses_backD[OF d hdpost, of "pre @ ws @ quote # key @ [quote] @ '': ''"]
    by (simp add: srcd p1_def add.assoc pk_def pv0_def p2_def)
  have "sorted_wrt (<) (map fst (acc @ [(key, v)]))"
    using sorted by (simp add: sorted_wrt_append)
  then have em: "emplace acc key v = acc @ [(key, v)]" by (rule emplace_last)
  have "parseObject fc src (length pre) acc
      = (Ok (Object (acc @ (key, v) # obj)), p2 + length sepstr + 1 + length ret + 1)"
  proof (cases "obj = []")
    case True
    then have ret: "ret = []" using r by (simp add: members_parse_back_def)
    have sep: "sepstr = []" using True by (simp add: sepstr_def)
    have src': "src = (pre @ ws @ quote # key @ [quote] @ '': '' @ d) @ [newline] @ CHR ''}'' # post"
      by (simp add: src_def tail_def ret sep)
    have ss: "skipSeparator src p2 = (False, p2 + 1)"
      unfolding src'
      using skipSeparator_newline_close[of "CHR ''}''"
          "pre @ ws @ quote # key @ [quote] @ '': '' @ d" post]
      by (simp add: p2_def pv0_def pk_def p1_def add.assoc isWhitespace_def)
    have lt3: "p2 + 1 < length src" and nth3: "src ! (p2 + 1) = CHR ''}''"
      by (simp_all add: src' p2_def pv0_def pk_def p1_def add.assoc nth_append)
    show ?thesis
      using lt0 lt1 ltk ltv lt3 nth3 True
      by (subst parseObject.simps) (simp add: sk nth1 ps sk2 nthk sk3 pv ss em ret sep)
  next
    case False
    then have rne: "ret \<noteq> []" and rq: "hd ret = quote"
      using r by (auto simp: members_parse_back_def)
    have sep: "sepstr = '',''" using False by (simp add: sepstr_def)
    have src': "src = (pre @ ws @ quote # key @ [quote] @ '': '' @ d) @ '','' @ [newline]
        @ (ret @ CHR ''}'' # post)"
      by (simp add: src_def tail_def sep)
    have ss: "skipSeparator src p2 = (True, p2 + 2)"
      unfolding src'
      using skipSeparator_comma_newline[of "ret @ CHR ''}'' # post"
          "pre @ ws @ quote # key @ [quote] @ '': '' @ d"] rne rq
      by (simp add: p2_def pv0_def pk_def p1_def add.assoc isWhitespace_def)
    have lt3: "p2 + 2 < length src" and nth3: "src ! (p2 + 2) = quote"
      using rne rq by (simp_all add: src' p2_def pv0_def pk_def p1_def add.assoc nth_append hd_conv_nth)
    have src'': "src = (pre @ ws @ quote # key @ [quote] @ '': '' @ d @ '','' @ [newline])
        @ [] @ ret @ CHR ''}'' # post"
      by (simp add: src')
    have "sorted_wrt (<) (map fst ((acc @ [(key, v)]) @ obj))"
      using sorted by simp
    from members_parse_backD[OF r _ this, of "[]"
        "pre @ ws @ quote # key @ [quote] @ '': '' @ d @ '','' @ [newline]" post]
    have rec: "parseObject fc src (p2 + 2) (acc @ [(key, v)])
        = (Ok (Object ((acc @ [(key, v)]) @ obj)), p2 + 2 + length ret + 1)"
      by (simp add: src'' p2_def pv0_def pk_def p1_def add.assoc)
    show ?thesis
      using lt0 lt1 ltk ltv lt3 nth3 rec
      by (subst parseObject.simps) (simp add: sk nth1 ps sk2 nthk sk3 pv ss em sep)
  qed
  then show "parseObject fc
        (pre @ ws @ (quote # key @ [quote] @ '': '' @ d @ (if obj \<noteq> [] then '','' else [])
                     @ [newline] @ ret) @ CHR ''}'' # post)
        (length pre) acc
      = (Ok (Object (acc @ (key, v) # obj)),
         length pre + length ws
         + length (quote # key @ [quote] @ '': '' @ d @ (if obj \<noteq> [] then '','' else [])
                   @ [newline] @ ret) + 1)"
    by (simp add: src_def tail_def sepstr_def p2_def pv0_def pk_def p1_def add.assoc)
qed simp_all

lemma dump_parses_back:
  "reads_back fc to_string v \<Longrightarrow>
     \<exists>d. dump to_string [] lvl v = Inr d \<and> parses_back fc d v"
  "reads_back_elements fc to_string arr \<Longrightarrow>
     \<exists>ret. dump_elements to_string [] lvl arr = Inr ret \<and> elements_parse_back fc ret arr"
  "reads_back_members fc to_string obj \<Longrightarrow>
     \<exists>ret. dump_members to_string [] lvl obj = Inr ret \<and> members_parse_back fc ret obj"
proof (induction fc to_string v and fc to_string arr and fc to_string obj
    arbitrary: lvl and lvl and lvl
    rule: reads_back_reads_back_elements_reads_back_members.induct)
  case (1 fc to_string)
  then show ?case by simp
next
  case (2 fc to_string)
  show ?case by (simp add: parses_back_Null)
next
  case (3 fc to_string b)
  show ?case using parses_back_Bool[of fc b] by simp
next
  case (4 fc to_string n)
  then show ?case by (simp add: parses_back_Number)
next
  case (5 fc to_string s)
  then show ?case using parses_back_String[of s fc] by simp
next
  case (6 fc to_string arr)
  from "6.prems" have "reads_back_elements fc to_string arr" by simp
  from "6.IH" this obtain ret
    where ret: "dump_elements to_string [] lvl arr = Inr ret" "elements_parse_back fc ret arr"
    by blast
  show ?case using parses_back_Array[OF ret(2)] by (simp add: ret(1) indentStr_empty)
next
  case (7 fc to_string obj)
  from "7.prems" have m: "reads_back_members fc to_string obj"
    and sorted: "sorted_wrt (<) (map fst obj)" by simp_all
  from "7.IH" m obtain ret
    where ret: "dump_members to_string [] lvl obj = Inr ret" "members_parse_back fc ret obj"
    by blast
  show ?case using parses_back_Object[OF ret(2) sorted] by (simp add: ret(1) indentStr_empty)
next
  case (8 fc to_string)
  show ?case by (simp add: elements_parse_back_Nil)
next
  case (9 fc to_string v arr)
  from "9.prems" have v: "reads_back fc to_string v"
    and arr: "reads_back_elements fc to_string arr" by simp_all
  from "9.IH"(1) v obtain d
    where d: "dump to_string [] (lvl + 1) v = Inr d" "parses_back fc d v" by blast
  from "9.IH"(2) v arr obtain ret
    where ret: "dump_elements to_string [] lvl arr = Inr ret" "elements_parse_back fc ret arr"
    by blast
  show ?case
    using elements_parse_back_Cons[OF d(2) ret(2)] d(1) ret(1)
    by (simp add: indentStr_empty)
next
  case (10 fc to_string)
  show ?case by (simp add: members_parse_back_Nil)
next
  case (11 fc to_string key v obj)
  from "11.prems" have k: "plain_string key" and v: "reads_back fc to_string v"
    and obj: "reads_back_members fc to_string obj" by simp_all
  from "11.IH"(1) k v obtain d
    where d: "dump to_string [] (lvl + 1) v = Inr d" "parses_back fc d v" by blast
  from "11.IH"(2) k v obj obtain ret
    where ret: "dump_members to_string [] lvl obj = Inr ret" "members_parse_back fc ret obj"
    by blast
  show ?case
    using members_parse_back_Cons[OF k d(2) ret(2)] d(1) ret(1)
    by (simp add: indentStr_empty)
qed

text \<open>
  C4, as amended: for every tree without \<^verbatim>\<open>Invalid\<close> whose strings and keys hold no
  quote and no backslash, whose object keys are strictly increasing and whose numbers
  are read back from their text by the two conversions, \<^verbatim>\<open>dump()\<close> returns a text
  and \<^verbatim>\<open>parse\<close> of that text returns the tree.
\<close>

theorem dump_parse_roundtrip:
  assumes "reads_back fc to_string v"
  shows "\<exists>text. dump to_string [] 0 v = Inr text \<and> parse fc text = Ok v"
proof -
  from dump_parses_back(1)[OF assms, of 0] obtain d
    where d: "dump to_string [] 0 v = Inr d" "parses_back fc d v" by blast
  from parses_backD[OF d(2), of "[]" "[]"] have "parse fc d = Ok v"
    by (simp add: parse_def)
  with d(1) show ?thesis by blast
qed

theorem dump_parse_roundtrip_witness:
  "reads_back from_chars_model to_string_model
     (Object [(''a'', Number (Finite 12)),
              (''arr'', Array [Number (Finite (- 3 / 2)), String ''x y'', Null, Bool True,
                               Array [], Object []])])
   \<and> (\<exists>text. dump to_string_model [] 0
                (Object [(''a'', Number (Finite 12)),
                         (''arr'', Array [Number (Finite (- 3 / 2)), String ''x y'', Null,
                                          Bool True, Array [], Object []])]) = Inr text
          \<and> parse from_chars_model text
              = Ok (Object [(''a'', Number (Finite 12)),
                            (''arr'', Array [Number (Finite (- 3 / 2)), String ''x y'', Null,
                                             Bool True, Array [], Object []])]))"
proof -
  have r: "reads_back from_chars_model to_string_model
     (Object [(''a'', Number (Finite 12)),
              (''arr'', Array [Number (Finite (- 3 / 2)), String ''x y'', Null, Bool True,
                               Array [], Object []])])"
    by code_simp
  from dump_parse_roundtrip[OF r] r show ?thesis by blast
qed

text \<open>
  C4 as stated, for every Number, fails: \<^verbatim>\<open>std::to_string\<close> prints six digits after
  the point, so the double 1/16777216 is dumped as \<^verbatim>\<open>0.000000\<close>, which parses to the Number 0.
\<close>

theorem dump_parse_roundtrip_counterexample:
  "dump to_string_model [] 0 (Number (Finite (1 / 16777216))) = Inr ''0.000000''
   \<and> parse from_chars_model ''0.000000'' = Ok (Number (Finite 0))
   \<and> parse from_chars_model ''0.000000'' \<noteq> Ok (Number (Finite (1 / 16777216)))"
  by code_simp

end
